theory Spec2Isabelle
  imports Main "HOL-Library.AList" "HOL-Library.Char_ord" "HOL-Library.List_Lexorder"
    "HOL-Library.Multiset"
begin

section \<open>Errors and string primitives\<close>

text \<open>
  The exceptions that the script \<^verbatim>\<open>tools/autoware-interfaces/generate.py\<close> can raise,
  as values. \<open>KeyError\<close> carries its message; \<open>ParserError\<close> stands for whatever the
  external schema parser or the package index raises.
\<close>

datatype error =
    KeyError string
  | ValueError
  | TypeError
  | IndexError
  | OSError
  | ParserError string

text \<open>
  Python's \<^verbatim>\<open>s.split(c)\<close> for a one-character separator: the pieces between the
  occurrences of \<open>c\<close>; the result is never empty (\<^verbatim>\<open>"".split("/") == [""]\<close>).
\<close>

fun str_split :: "char \<Rightarrow> string \<Rightarrow> string list" where
  "str_split c [] = [[]]"
| "str_split c (x # xs) =
     (case str_split c xs of
        [] \<Rightarrow> [[]]
      | p # ps \<Rightarrow> if x = c then [] # p # ps else (x # p) # ps)"

text \<open>Python's \<^verbatim>\<open>sep.join(parts)\<close>.\<close>

fun str_join :: "string \<Rightarrow> string list \<Rightarrow> string" where
  "str_join sep [] = []"
| "str_join sep [p] = p"
| "str_join sep (p # q # ps) = p @ sep @ str_join sep (q # ps)"

section \<open>Type names\<close>

text \<open>
  \<^verbatim>\<open>
  def is_documentation_msg(name: str):
      targets = set(["autoware_adapi_version_msgs", "autoware_adapi_v1_msgs"])
      return name.split("/")[0] in targets

  def strip_array_suffix(name: str):
      return name.split("[")[0]

  def normalize_msg_name(name: str):
      parts = str(name).split("/")
      return parts[0] if len(parts) == 1 else f"{parts[0]}/msg/{parts[1]}"
  \<close>
  The argument of \<open>normalize_msg_name\<close> is the text \<^verbatim>\<open>str(name)\<close> of a field type.
\<close>

definition targets :: "string set" where
  "targets = {''autoware_adapi_version_msgs'', ''autoware_adapi_v1_msgs''}"

definition is_documentation_msg :: "string \<Rightarrow> bool" where
  "is_documentation_msg name \<longleftrightarrow> hd (str_split CHR ''/'' name) \<in> targets"

definition strip_array_suffix :: "string \<Rightarrow> string" where
  "strip_array_suffix name = hd (str_split CHR ''['' name)"

definition normalize_msg_name :: "string \<Rightarrow> string" where
  "normalize_msg_name name =
     (let parts = str_split CHR ''/'' name
      in if length parts = 1 then parts ! 0 else parts ! 0 @ ''/msg/'' @ parts ! 1)"

section \<open>Table formatting\<close>

text \<open>
  \<^verbatim>\<open>
  def tabulate(data, header):
      widths = map(len, header)
      for line in data:
          widths = map(max, zip(map(len, line), widths))
      widths = list(widths)
      format = "| " + " | ".join(f"{{:{width}}}" for width in widths) + " |"
      border = ["-" * width for width in widths]
      return "\n".join(format.format(*line) for line in [header, border, *data])
  \<close>
  \<open>zip\<close> stops at the shorter argument, as Python's does. The format string has one
  replacement field \<^verbatim>\<open>{:width}\<close> per width; applied to a string, such a field pads it
  on the right with spaces up to the width and never cuts it (\<open>ljust\<close>). \<^verbatim>\<open>str.format\<close>
  raises \<open>IndexError\<close> when it is given fewer arguments than fields and ignores surplus
  arguments.
\<close>

definition column_widths :: "string list list \<Rightarrow> string list \<Rightarrow> nat list" where
  "column_widths data header =
     fold (\<lambda>line widths. map (\<lambda>(a, b). max a b) (zip (map length line) widths))
       data (map length header)"

definition ljust :: "nat \<Rightarrow> string \<Rightarrow> string" where
  "ljust width s = s @ replicate (width - length s) CHR '' ''"

definition format_line :: "nat list \<Rightarrow> string list \<Rightarrow> error + string" where
  "format_line widths line =
     (if length line < length widths then Inl IndexError
      else Inr (''| '' @ str_join '' | '' (map (\<lambda>(w, c). ljust w c) (zip widths line)) @ '' |''))"

fun collect :: "(error + 'a) list \<Rightarrow> error + 'a list" where
  "collect [] = Inr []"
| "collect (Inl e # rs) = Inl e"
| "collect (Inr x # rs) = (case collect rs of Inl e \<Rightarrow> Inl e | Inr xs \<Rightarrow> Inr (x # xs))"

definition tabulate :: "string list list \<Rightarrow> string list \<Rightarrow> error + string" where
  "tabulate data header =
     (let widths = column_widths data header;
          border = map (\<lambda>width. replicate width CHR ''-'') widths
      in case collect (map (format_line widths) (header # border # data)) of
           Inl e \<Rightarrow> Inl e
         | Inr rendered \<Rightarrow> Inr (str_join [CHR 0x0A] rendered))"

definition table_row :: "string list \<Rightarrow> string" where
  "table_row cells = ''| '' @ str_join '' | '' cells @ '' |''"

section \<open>Metadata loader\<close>

text \<open>
  The value that \<^verbatim>\<open>yaml.safe_load\<close> returns: \<open>None\<close>, a scalar, a list or a dict.
  \<open>YInt\<close> stands for every scalar that is neither a string nor \<open>None\<close> nor a boolean.
\<close>

datatype yaml =
    YNull
  | YBool bool
  | YInt int
  | YStr string
  | YSeq "yaml list"
  | YMap "(yaml \<times> yaml) list"

text \<open>Python's \<^verbatim>\<open>p in s\<close> on two strings: \<open>p\<close> occurs in \<open>s\<close> as a contiguous piece.\<close>

fun str_contains :: "string \<Rightarrow> string \<Rightarrow> bool" where
  "str_contains p [] = (p = [])"
| "str_contains p (x # xs) = (take (length p) (x # xs) = p \<or> str_contains p xs)"

text \<open>
  Python's \<^verbatim>\<open>key in data\<close> for a string \<open>key\<close>: membership among the keys of a dict, among
  the elements of a list, substring test on a string, and \<open>TypeError\<close> on a value that is
  not iterable.
\<close>

fun py_in :: "string \<Rightarrow> yaml \<Rightarrow> error + bool" where
  "py_in key (YMap items) = Inr (YStr key \<in> fst ` set items)"
| "py_in key (YSeq elems) = Inr (YStr key \<in> set elems)"
| "py_in key (YStr s) = Inr (str_contains key s)"
| "py_in key YNull = Inl TypeError"
| "py_in key (YBool b) = Inl TypeError"
| "py_in key (YInt i) = Inl TypeError"

text \<open>
  \<^verbatim>\<open>
  def test_markdown_metadata(data, path):
      if "status" not in data:
          raise KeyError(f"status in {path}")
      return data
  \<close>
\<close>

definition test_markdown_metadata :: "yaml \<Rightarrow> string \<Rightarrow> error + yaml" where
  "test_markdown_metadata data path =
     (case py_in ''status'' data of
        Inl e \<Rightarrow> Inl e
      | Inr present \<Rightarrow> if \<not> present then Inl (KeyError (''status in '' @ path)) else Inr data)"

text \<open>
  Python's \<^verbatim>\<open>xs.index(x, start)\<close>: the first position at or after \<open>start\<close> that holds
  \<open>x\<close>; \<open>None\<close> where Python raises \<open>ValueError\<close>.
\<close>

fun index_of :: "'a \<Rightarrow> 'a list \<Rightarrow> nat option" where
  "index_of x [] = None"
| "index_of x (y # ys) = (if y = x then Some 0 else map_option Suc (index_of x ys))"

definition list_index :: "'a \<Rightarrow> nat \<Rightarrow> 'a list \<Rightarrow> nat option" where
  "list_index x start xs = map_option (\<lambda>i. i + start) (index_of x (drop start xs))"

text \<open>
  \<^verbatim>\<open>
  def load_markdown_metadata(path: Path):
      lines = path.read_text().splitlines()
      if (2 < len(lines)) and (lines[0] == "---"):
          data = lines[1:lines.index("---", 1)]
          data = yaml.safe_load("\n".join(data))
          return test_markdown_metadata(data, path)
      return None
  \<close>
  The file is given by its path and by the lines that \<^verbatim>\<open>path.read_text().splitlines()\<close>
  yields. The YAML parser is a library, not part of the script: it is the parameter
  \<open>safe_load\<close>, which returns a value or raises. The result \<open>Inr None\<close> is Python's
  \<^verbatim>\<open>return None\<close>.
\<close>

definition load_markdown_metadata ::
  "(string \<Rightarrow> error + yaml) \<Rightarrow> string \<Rightarrow> string list \<Rightarrow> error + yaml option" where
  "load_markdown_metadata safe_load path lines =
     (if 2 < length lines \<and> lines ! 0 = ''---'' then
        (case list_index ''---'' 1 lines of
           None \<Rightarrow> Inl ValueError
         | Some i \<Rightarrow>
             (case safe_load (str_join [CHR 0x0A] (take (i - 1) (drop 1 lines))) of
                Inl e \<Rightarrow> Inl e
              | Inr data \<Rightarrow> map_sum id Some (test_markdown_metadata data path)))
      else Inr None)"

text \<open>
  Python's \<^verbatim>\<open>page[key]\<close> for a string \<open>key\<close>, as \<open>main\<close> uses it for
  \<^verbatim>\<open>page["title"]\<close> and \<^verbatim>\<open>page["status"]\<close>: the value stored under the key of a dict
  (\<open>KeyError\<close> when absent), \<open>TypeError\<close> on anything else.
\<close>

fun subscript :: "yaml \<Rightarrow> string \<Rightarrow> error + yaml" where
  "subscript (YMap items) key =
     (case map_of items (YStr key) of None \<Rightarrow> Inl (KeyError key) | Some v \<Rightarrow> Inr v)"
| "subscript other key = Inl TypeError"

section \<open>Clean-up of the type pages\<close>

text \<open>
  \<^verbatim>\<open>
  base = Path("docs/design/autoware-interfaces/ad-api/types")
  for path in base.iterdir():
      if path.is_dir():
          shutil.rmtree(path)
  \<close>
  The output root is given by its entries, in the order \<open>iterdir\<close> yields them: each a
  regular file with its text, a directory with its entries, or a symbolic link (with
  whether it points to a directory). \<open>is_dir\<close> follows links; \<open>rmtree\<close> deletes a
  directory with everything below it and raises \<open>OSError\<close> on a symbolic link, which stops
  the loop. The result is the error, if any, and the entries left under the root.
\<close>

datatype node =
    File string
  | Dir "(string \<times> node) list"
  | Link bool

fun is_dir :: "node \<Rightarrow> bool" where
  "is_dir (File body) = False"
| "is_dir (Dir entries) = True"
| "is_dir (Link to_dir) = to_dir"

fun clean_up :: "(string \<times> node) list \<Rightarrow> error option \<times> (string \<times> node) list" where
  "clean_up [] = (None, [])"
| "clean_up ((name, n) # rest) =
     (if is_dir n then
        (case n of
           Link to_dir \<Rightarrow> (Some OSError, (name, n) # rest)
         | _ \<Rightarrow> clean_up rest)
      else (case clean_up rest of (err, kept) \<Rightarrow> (err, (name, n) # kept)))"

section \<open>Type resolver\<close>

text \<open>
  A field map is the Python dict from field names to type names, a spec the dict that
  holds the field maps of one type under \<^verbatim>\<open>"msg"\<close> or under \<^verbatim>\<open>"req"\<close> and \<^verbatim>\<open>"res"\<close>;
  both are association lists in insertion order, as Python's dicts are.
\<close>

type_synonym field_map = "(string \<times> string) list"

type_synonym spec = "(string \<times> field_map) list"

text \<open>
  The schema parser and the package index are libraries. A corpus gives what they return
  for the schema file of package \<open>pkg\<close> and type \<open>msg\<close>: the fields (name and the text of
  the type) of a message file, the fields of the request and of the response of a service
  file, or the error they raise.
\<close>

record corpus =
  parse_message_file :: "string \<Rightarrow> string \<Rightarrow> error + (string \<times> string) list"
  parse_service_file ::
    "string \<Rightarrow> string \<Rightarrow> error + ((string \<times> string) list \<times> (string \<times> string) list)"

text \<open>The three collections that \<open>main\<close> threads through the resolver.\<close>

record resolver =
  depends :: "string set"
  visited :: "string set"
  specs :: "(string \<times> spec) list"

text \<open>
  \<^verbatim>\<open>
  def parse_rosidl_spec(depends: set, visited: set, spec: MessageSpecification):
      fields = {field.name: normalize_msg_name(field.type) for field in spec.fields}
      for name in fields.values():
          name = strip_array_suffix(name)
          if name not in visited:
              depends.add(name)
      return fields
  \<close>
  The model returns the new \<open>depends\<close> with the field map.
\<close>

definition field_dict :: "(string \<times> string) list \<Rightarrow> field_map" where
  "field_dict flds =
     fold (\<lambda>(fname, ftype). AList.update fname (normalize_msg_name ftype)) flds []"

definition parse_rosidl_spec ::
  "string set \<Rightarrow> string set \<Rightarrow> (string \<times> string) list \<Rightarrow> string set \<times> field_map" where
  "parse_rosidl_spec deps seen spec_fields =
     (let flds = field_dict spec_fields
      in (fold (\<lambda>name deps'.
                  if strip_array_suffix name \<notin> seen then insert (strip_array_suffix name) deps'
                  else deps')
            (map snd flds) deps,
          flds))"

text \<open>
  \<^verbatim>\<open>
  def parse_rosidl_file(depends: set, visited: set, specs: dict, name: str):
      visited.add(name)
      if is_documentation_msg(name):
          pkg, ext, msg = name.split("/")
          if ext == "msg":
              msg = parse_message_file(pkg, resolve_msg_file_path(name))
              msg = parse_rosidl_spec(depends, visited, msg)
              specs[name] = {"msg": msg}
              specs[name] = {k: v for k, v in specs[name].items() if v}
          if ext == "srv":
              srv = parse_service_file(pkg, resolve_msg_file_path(name))
              req = parse_rosidl_spec(depends, visited, srv.request)
              res = parse_rosidl_spec(depends, visited, srv.response)
              specs[name] = {"req": req, "res": res}
              specs[name] = {k: v for k, v in specs[name].items() if v}
  \<close>
  Unpacking \<^verbatim>\<open>name.split("/")\<close> into three variables raises \<open>ValueError\<close> unless there
  are exactly three parts. The two tests on \<open>ext\<close> exclude each other, and the second
  assignment to \<^verbatim>\<open>specs[name]\<close> replaces the first.
\<close>

definition drop_empty :: "spec \<Rightarrow> spec" where
  "drop_empty sp = filter (\<lambda>(k, v). v \<noteq> []) sp"

definition parse_rosidl_file :: "corpus \<Rightarrow> resolver \<Rightarrow> string \<Rightarrow> error + resolver" where
  "parse_rosidl_file c s0 name =
     (let s = s0\<lparr>visited := insert name (visited s0)\<rparr> in
      if is_documentation_msg name then
        (case str_split CHR ''/'' name of
           [pkg, ext, msg] \<Rightarrow>
             if ext = ''msg'' then
               (case parse_message_file c pkg msg of
                  Inl e \<Rightarrow> Inl e
                | Inr m \<Rightarrow>
                    (case parse_rosidl_spec (depends s) (visited s) m of
                       (deps, flds) \<Rightarrow>
                         Inr (s\<lparr>depends := deps,
                                 specs := AList.update name (drop_empty [(''msg'', flds)])
                                            (specs s)\<rparr>)))
             else if ext = ''srv'' then
               (case parse_service_file c pkg msg of
                  Inl e \<Rightarrow> Inl e
                | Inr (request, response) \<Rightarrow>
                    (case parse_rosidl_spec (depends s) (visited s) request of
                       (deps1, req) \<Rightarrow>
                         (case parse_rosidl_spec deps1 (visited s) response of
                            (deps2, res) \<Rightarrow>
                              Inr (s\<lparr>depends := deps2,
                                      specs := AList.update name
                                                 (drop_empty [(''req'', req), (''res'', res)])
                                                 (specs s)\<rparr>))))
             else Inr s
         | _ \<Rightarrow> Inl ValueError)
      else Inr s)"

text \<open>
  \<^verbatim>\<open>
  specs = {}
  visited = set()
  depends = set(names)
  while depends:
      name = depends.pop()
      parse_rosidl_file(depends, visited, specs, name)
  \<close>
  \<^verbatim>\<open>depends.pop()\<close> removes and returns an arbitrary element. Which one is decided by
  \<open>pop\<close>, a function of the names popped so far and of the current set, so that any
  strategy can be expressed. The loop is given fuel: the result is \<open>None\<close> when the fuel
  runs out before \<open>depends\<close> is empty, or when \<open>pop\<close> answers with a name that is not in
  the set (which \<^verbatim>\<open>set.pop\<close> cannot do); otherwise it is the error raised or the final
  collections.
\<close>

fun resolve_loop ::
  "corpus \<Rightarrow> (string list \<Rightarrow> string set \<Rightarrow> string) \<Rightarrow> nat \<Rightarrow> string list \<Rightarrow> resolver \<Rightarrow>
     (error + resolver) option" where
  "resolve_loop c pop 0 popped s = (if depends s = {} then Some (Inr s) else None)"
| "resolve_loop c pop (Suc fuel) popped s =
     (if depends s = {} then Some (Inr s)
      else if pop popped (depends s) \<notin> depends s then None
      else
        (case parse_rosidl_file c (s\<lparr>depends := depends s - {pop popped (depends s)}\<rparr>)
                (pop popped (depends s)) of
           Inl e \<Rightarrow> Some (Inl e)
         | Inr s' \<Rightarrow> resolve_loop c pop fuel (popped @ [pop popped (depends s)]) s'))"

definition resolve ::
  "corpus \<Rightarrow> (string list \<Rightarrow> string set \<Rightarrow> string) \<Rightarrow> nat \<Rightarrow> string list \<Rightarrow>
     (error + resolver) option" where
  "resolve c pop fuel names =
     resolve_loop c pop fuel [] \<lparr>depends = set names, visited = {}, specs = []\<rparr>"

section \<open>Export writer\<close>

text \<open>
  \<^verbatim>\<open>
  class MyDumper(yaml.SafeDumper):
      def increase_indent(self, flow=False, *args, **kwargs):
          return super().increase_indent(flow=flow, indentless=False)

  data = {"types": specs}
  Path("yaml/autoware-interfaces.yaml").write_text(yaml.dump(data, Dumper=MyDumper))
  \<close>
  \<^verbatim>\<open>yaml.dump\<close> first represents the data as a tree of nodes and then emits the tree as
  text. Representing a dict lists its items sorted (\<^verbatim>\<open>sort_keys\<close> is on by default);
  the keys of a dict differ, so the items are in the order of their keys. The emitter,
  with the indentation that \<open>MyDumper\<close> chooses, is library code: it is the parameter
  \<open>emit\<close>, a function of the tree.
\<close>

datatype ynode =
    Scalar string
  | Mapping "(ynode \<times> ynode) list"

definition sorted_items :: "(string \<times> 'a) list \<Rightarrow> (string \<times> 'a) list" where
  "sorted_items items = sort_key fst items"

definition represent_fields :: "field_map \<Rightarrow> ynode" where
  "represent_fields flds =
     Mapping (map (\<lambda>(fname, ftype). (Scalar fname, Scalar ftype)) (sorted_items flds))"

definition represent_spec :: "spec \<Rightarrow> ynode" where
  "represent_spec sp =
     Mapping (map (\<lambda>(key, flds). (Scalar key, represent_fields flds)) (sorted_items sp))"

definition represent_specs :: "(string \<times> spec) list \<Rightarrow> ynode" where
  "represent_specs table =
     Mapping (map (\<lambda>(name, sp). (Scalar name, represent_spec sp)) (sorted_items table))"

definition yaml_dump :: "(ynode \<Rightarrow> string) \<Rightarrow> (string \<times> spec) list \<Rightarrow> string" where
  "yaml_dump emit table = emit (Mapping [(Scalar ''types'', represent_specs table)])"

section \<open>Type dependencies\<close>

text \<open>
  \<^verbatim>\<open>
  type_uses = {name: set() for name in specs}
  type_used = {name: set() for name in specs}
  for user, spec in specs.items():
      for field in spec.values():
          for name in field.values():
              name = strip_array_suffix(name)
              if is_documentation_msg(name):
                  type_uses[user].add(name)
                  type_used[name].add(user)
  \<close>
  Subscripting a dict with a key it does not hold raises \<open>KeyError\<close>.
\<close>

definition add_to ::
  "(string \<rightharpoonup> string set) \<Rightarrow> string \<Rightarrow> string \<Rightarrow> error + (string \<rightharpoonup> string set)" where
  "add_to m key x =
     (case m key of None \<Rightarrow> Inl (KeyError key) | Some xs \<Rightarrow> Inr (m(key \<mapsto> insert x xs)))"

definition record_use ::
  "string \<Rightarrow> string \<Rightarrow> (string \<rightharpoonup> string set) \<times> (string \<rightharpoonup> string set) \<Rightarrow>
     error + (string \<rightharpoonup> string set) \<times> (string \<rightharpoonup> string set)" where
  "record_use user name g =
     (if is_documentation_msg (strip_array_suffix name) then
        (case add_to (fst g) user (strip_array_suffix name) of
           Inl e \<Rightarrow> Inl e
         | Inr type_uses \<Rightarrow>
             (case add_to (snd g) (strip_array_suffix name) user of
                Inl e \<Rightarrow> Inl e
              | Inr type_used \<Rightarrow> Inr (type_uses, type_used)))
      else Inr g)"

text \<open>A \<^verbatim>\<open>for\<close> loop whose body may raise: the first error ends it.\<close>

fun for_each :: "('a \<Rightarrow> 's \<Rightarrow> error + 's) \<Rightarrow> 'a list \<Rightarrow> 's \<Rightarrow> error + 's" where
  "for_each body [] s = Inr s"
| "for_each body (x # xs) s =
     (case body x s of Inl e \<Rightarrow> Inl e | Inr s' \<Rightarrow> for_each body xs s')"

definition type_dependencies ::
  "(string \<times> spec) list \<Rightarrow>
     error + (string \<rightharpoonup> string set) \<times> (string \<rightharpoonup> string set)" where
  "type_dependencies table =
     for_each
       (\<lambda>(user, sp). for_each
          (\<lambda>(key, field). for_each (\<lambda>(fname, name). record_use user name) field) sp)
       table
       (map_of (map (\<lambda>(name, sp). (name, {})) table),
        map_of (map (\<lambda>(name, sp). (name, {})) table))"

section \<open>The closure that the resolver computes\<close>

text \<open>
  What \<open>parse_rosidl_file\<close> reads for a name of the documented namespace, as a function
  of the name alone: the error raised, no spec (a kind that is neither \<open>msg\<close> nor \<open>srv\<close>),
  or the field maps before empty ones are dropped.
\<close>

definition file_fields :: "corpus \<Rightarrow> string \<Rightarrow> error + spec option" where
  "file_fields c name =
     (case str_split CHR ''/'' name of
        [pkg, ext, msg] \<Rightarrow>
          if ext = ''msg'' then
            (case parse_message_file c pkg msg of
               Inl e \<Rightarrow> Inl e
             | Inr m \<Rightarrow> Inr (Some [(''msg'', field_dict m)]))
          else if ext = ''srv'' then
            (case parse_service_file c pkg msg of
               Inl e \<Rightarrow> Inl e
             | Inr (request, response) \<Rightarrow>
                 Inr (Some [(''req'', field_dict request), (''res'', field_dict response)]))
          else Inr None
      | _ \<Rightarrow> Inl ValueError)"

text \<open>The type names that the field maps of a spec refer to, array suffixes stripped.\<close>

definition spec_refs :: "spec \<Rightarrow> string set" where
  "spec_refs sp = (\<Union>(key, flds) \<in> set sp. (\<lambda>(fname, name). strip_array_suffix name) ` set flds)"

definition references :: "corpus \<Rightarrow> string \<Rightarrow> string set" where
  "references c name =
     (if is_documentation_msg name then
        (case file_fields c name of Inr (Some sp) \<Rightarrow> spec_refs sp | _ \<Rightarrow> {})
      else {})"

definition table_entry :: "corpus \<Rightarrow> string \<Rightarrow> spec option" where
  "table_entry c name =
     (if is_documentation_msg name then
        (case file_fields c name of Inr (Some sp) \<Rightarrow> Some (drop_empty sp) | _ \<Rightarrow> None)
      else None)"

definition readable :: "corpus \<Rightarrow> string \<Rightarrow> bool" where
  "readable c name \<longleftrightarrow> (is_documentation_msg name \<longrightarrow> (\<exists>r. file_fields c name = Inr r))"

text \<open>The invariant of the resolver's loop, for the seed set \<open>seeds\<close>.\<close>

definition resolver_inv :: "corpus \<Rightarrow> string set \<Rightarrow> resolver \<Rightarrow> bool" where
  "resolver_inv c seeds s \<longleftrightarrow>
     seeds \<subseteq> visited s \<union> depends s \<and>
     depends s \<inter> visited s = {} \<and>
     (\<forall>n \<in> visited s. references c n \<subseteq> visited s \<union> depends s \<and> readable c n) \<and>
     distinct (map fst (specs s)) \<and>
     map_of (specs s) = (\<lambda>n. if n \<in> visited s then table_entry c n else None)"

text \<open>
  A universe of type names for a corpus: it holds every name that a schema of one of its
  names refers to.
\<close>

definition closed_under :: "corpus \<Rightarrow> string set \<Rightarrow> bool" where
  "closed_under c names \<longleftrightarrow> (\<forall>n \<in> names. references c n \<subseteq> names)"

text \<open>A pop strategy is sound on a universe when it answers with a member of the set.\<close>

definition pops_member :: "(string list \<Rightarrow> string set \<Rightarrow> string) \<Rightarrow> string set \<Rightarrow> bool" where
  "pops_member pop names \<longleftrightarrow>
     (\<forall>popped pending. pending \<noteq> {} \<and> pending \<subseteq> names \<longrightarrow> pop popped pending \<in> pending)"

section \<open>Properties of the dependency graph\<close>

text \<open>The set stored under a key of a dict of sets; empty for a key the dict lacks.\<close>

definition members :: "(string \<rightharpoonup> string set) \<Rightarrow> string \<Rightarrow> string set" where
  "members m key = (case m key of None \<Rightarrow> {} | Some xs \<Rightarrow> xs)"

text \<open>
  A dependency graph over the keys \<open>keys\<close>: both dicts have exactly these keys, and one
  is the transpose of the other.
\<close>

definition transposed ::
  "string set \<Rightarrow> (string \<rightharpoonup> string set) \<times> (string \<rightharpoonup> string set) \<Rightarrow> bool" where
  "transposed keys g \<longleftrightarrow>
     dom (fst g) = keys \<and> dom (snd g) = keys \<and>
     (\<forall>a b. b \<in> members (fst g) a \<longleftrightarrow> a \<in> members (snd g) b)"

text \<open>
  A table without dangling references: every documentation type that a field of the
  table refers to is a key of the table.
\<close>

definition references_resolved :: "(string \<times> spec) list \<Rightarrow> bool" where
  "references_resolved table \<longleftrightarrow>
     (\<forall>(user, sp) \<in> set table. \<forall>name \<in> spec_refs sp.
        is_documentation_msg name \<longrightarrow> name \<in> fst ` set table)"

section \<open>Example inputs\<close>

text \<open>
  What \<^verbatim>\<open>yaml.safe_load\<close> returns on the few front-matter texts that the examples below
  use: \<open>None\<close> for the empty document, a dict for lines of the form \<^verbatim>\<open>key: value\<close>.
\<close>

definition example_safe_load :: "string \<Rightarrow> error + yaml" where
  "example_safe_load text =
     (if text = [] then Inr YNull
      else if text = ''status: draft'' then Inr (YMap [(YStr ''status'', YStr ''draft'')])
      else if text = ''title: A'' @ [CHR 0x0A] @ ''status: draft''
        then Inr (YMap [(YStr ''title'', YStr ''A''), (YStr ''status'', YStr ''draft'')])
      else if text = ''title: B'' @ [CHR 0x0A] @ ''status: draft''
        then Inr (YMap [(YStr ''title'', YStr ''B''), (YStr ''status'', YStr ''draft'')])
      else if text = ''title: A''
        then Inr (YMap [(YStr ''title'', YStr ''A'')])
      else Inl (ParserError text))"

text \<open>
  A small corpus in the documented namespace: a service \<open>S\<close> whose request holds an array
  of \<open>A\<close> and whose response holds a \<open>B\<close>, a message \<open>A\<close> that holds a \<open>B\<close> and a byte, and a
  message \<open>B\<close> that holds a number.
\<close>

definition example_corpus :: corpus where
  "example_corpus =
     \<lparr>parse_message_file = (\<lambda>pkg msg.
          if pkg = ''autoware_adapi_v1_msgs'' \<and> msg = ''A''
            then Inr [(''b'', ''autoware_adapi_v1_msgs/B''), (''n'', ''uint8'')]
          else if pkg = ''autoware_adapi_v1_msgs'' \<and> msg = ''B''
            then Inr [(''v'', ''float64'')]
          else Inl (ParserError msg)),
       parse_service_file = (\<lambda>pkg msg.
          if pkg = ''autoware_adapi_v1_msgs'' \<and> msg = ''S''
            then Inr ([(''items'', ''autoware_adapi_v1_msgs/A[]'')],
                      [(''state'', ''autoware_adapi_v1_msgs/B'')])
          else Inl (ParserError msg))\<rparr>"

text \<open>A pop strategy: the first name of a fixed list that is in the set.\<close>

definition pop_first :: "string list \<Rightarrow> string list \<Rightarrow> string set \<Rightarrow> string" where
  "pop_first order popped names = (case filter (\<lambda>n. n \<in> names) order of [] \<Rightarrow> [] | n # _ \<Rightarrow> n)"

text \<open>
  Two orders in which the names of the example can be popped, and the collections with
  which the resolver ends for each, from the seed \<open>S\<close>.
\<close>

definition example_names :: "string list" where
  "example_names = [''autoware_adapi_v1_msgs/srv/S'']"

definition order_A_first :: "string list" where
  "order_A_first =
     [''autoware_adapi_v1_msgs/srv/S'', ''autoware_adapi_v1_msgs/msg/A'',
      ''autoware_adapi_v1_msgs/msg/B'', ''uint8'', ''float64'']"

definition order_B_first :: "string list" where
  "order_B_first =
     [''autoware_adapi_v1_msgs/srv/S'', ''autoware_adapi_v1_msgs/msg/B'',
      ''autoware_adapi_v1_msgs/msg/A'', ''float64'', ''uint8'']"

definition result_A_first :: resolver where
  "result_A_first =
     \<lparr>depends = {},
      visited = {''autoware_adapi_v1_msgs/srv/S'', ''autoware_adapi_v1_msgs/msg/A'',
                 ''autoware_adapi_v1_msgs/msg/B'', ''uint8'', ''float64''},
      specs =
        [(''autoware_adapi_v1_msgs/srv/S'',
           [(''req'', [(''items'', ''autoware_adapi_v1_msgs/msg/A[]'')]),
            (''res'', [(''state'', ''autoware_adapi_v1_msgs/msg/B'')])]),
         (''autoware_adapi_v1_msgs/msg/A'',
           [(''msg'', [(''b'', ''autoware_adapi_v1_msgs/msg/B''), (''n'', ''uint8'')])]),
         (''autoware_adapi_v1_msgs/msg/B'', [(''msg'', [(''v'', ''float64'')])])]\<rparr>"

definition result_B_first :: resolver where
  "result_B_first =
     \<lparr>depends = {},
      visited = {''autoware_adapi_v1_msgs/srv/S'', ''autoware_adapi_v1_msgs/msg/A'',
                 ''autoware_adapi_v1_msgs/msg/B'', ''uint8'', ''float64''},
      specs =
        [(''autoware_adapi_v1_msgs/srv/S'',
           [(''req'', [(''items'', ''autoware_adapi_v1_msgs/msg/A[]'')]),
            (''res'', [(''state'', ''autoware_adapi_v1_msgs/msg/B'')])]),
         (''autoware_adapi_v1_msgs/msg/B'', [(''msg'', [(''v'', ''float64'')])]),
         (''autoware_adapi_v1_msgs/msg/A'',
           [(''msg'', [(''b'', ''autoware_adapi_v1_msgs/msg/B''), (''n'', ''uint8'')])])]\<rparr>"

section \<open>Properties of the string primitives\<close>

lemma str_split_nonempty: "str_split c s \<noteq> []"
  by (induction s) (auto split: list.splits)

lemma str_split_Cons:
  "str_split c (x # xs) =
     (if x = c then [] # str_split c xs
      else (x # hd (str_split c xs)) # tl (str_split c xs))"
  using str_split_nonempty [of c xs] by (cases "str_split c xs") auto

declare str_split.simps(2) [simp del]

lemma length_str_split_pos: "0 < length (str_split c s)"
  using str_split_nonempty [of c s] by simp

lemma hd_str_split: "hd (str_split c s) = takeWhile (\<lambda>x. x \<noteq> c) s"
  by (induction s) (auto simp: str_split_Cons)

lemma str_split_no_sep: "c \<notin> set s \<Longrightarrow> str_split c s = [s]"
  by (induction s) (auto simp: str_split_Cons)

lemma str_split_single_iff: "length (str_split c s) = 1 \<longleftrightarrow> c \<notin> set s"
proof (induction s)
  case Nil
  show ?case by simp
next
  case (Cons x xs)
  have ne: "str_split c xs \<noteq> []" by (rule str_split_nonempty)
  show ?case
  proof (cases "x = c")
    case True
    with ne show ?thesis by (simp add: str_split_Cons)
  next
    case False
    with Cons ne show ?thesis
      by (cases "str_split c xs") (auto simp: str_split_Cons)
  qed
qed

lemma str_split_append_sep:
  "c \<notin> set p \<Longrightarrow> str_split c (p @ c # rest) = p # str_split c rest"
  by (induction p) (auto simp: str_split_Cons)

lemma str_split_parts_no_sep: "p \<in> set (str_split c s) \<Longrightarrow> c \<notin> set p"
proof (induction s arbitrary: p)
  case Nil
  then show ?case by simp
next
  case (Cons x xs)
  have ne: "str_split c xs \<noteq> []" by (rule str_split_nonempty)
  show ?case
  proof (cases "x = c")
    case True
    with Cons show ?thesis by (auto simp: str_split_Cons)
  next
    case False
    from ne obtain q qs where q: "str_split c xs = q # qs"
      by (cases "str_split c xs") auto
    with Cons.prems False have "p = x # q \<or> p \<in> set qs"
      by (simp add: str_split_Cons)
    then show ?thesis
    proof
      assume "p = x # q"
      moreover have "c \<notin> set q" using Cons.IH [of q] q by simp
      ultimately show ?thesis using False by auto
    next
      assume "p \<in> set qs"
      then show ?thesis using Cons.IH [of p] q by simp
    qed
  qed
qed

lemma normalize_bare: "CHR ''/'' \<notin> set name \<Longrightarrow> normalize_msg_name name = name"
  by (simp add: normalize_msg_name_def str_split_no_sep)

lemma normalize_qualified:
  assumes "CHR ''/'' \<in> set name"
  shows "normalize_msg_name name =
           str_split CHR ''/'' name ! 0 @ ''/msg/'' @ str_split CHR ''/'' name ! 1"
  using assms str_split_single_iff [of "CHR ''/''" name]
  by (simp add: normalize_msg_name_def Let_def)

lemma str_split_two_parts:
  assumes "c \<in> set s"
  shows "\<exists>rest. str_split c s = str_split c s ! 0 # str_split c s ! 1 # rest"
proof -
  have "length (str_split c s) \<noteq> 1" using assms str_split_single_iff by blast
  moreover have "str_split c s \<noteq> []" by (rule str_split_nonempty)
  ultimately obtain a b rest where "str_split c s = a # b # rest"
    by (cases "str_split c s"; cases "tl (str_split c s)") auto
  then show ?thesis by simp
qed

lemma str_split_normalized:
  assumes "CHR ''/'' \<in> set name"
  shows "str_split CHR ''/'' (normalize_msg_name name) =
           [str_split CHR ''/'' name ! 0, ''msg'', str_split CHR ''/'' name ! 1]"
proof -
  from str_split_two_parts [OF assms] obtain rest where
    parts: "str_split CHR ''/'' name =
              str_split CHR ''/'' name ! 0 # str_split CHR ''/'' name ! 1 # rest"
    by blast
  let ?a = "str_split CHR ''/'' name ! 0" and ?b = "str_split CHR ''/'' name ! 1"
  have "?a \<in> set (str_split CHR ''/'' name)" and "?b \<in> set (str_split CHR ''/'' name)"
    using parts by (metis list.set_intros(1), metis list.set_intros(1,2))
  then have a: "CHR ''/'' \<notin> set ?a" and b: "CHR ''/'' \<notin> set ?b"
    by (auto dest: str_split_parts_no_sep)
  have "str_split CHR ''/'' (?a @ CHR ''/'' # (''msg'' @ CHR ''/'' # ?b)) =
          ?a # str_split CHR ''/'' (''msg'' @ CHR ''/'' # ?b)"
    using a by (rule str_split_append_sep)
  also have "str_split CHR ''/'' (''msg'' @ CHR ''/'' # ?b) = ''msg'' # str_split CHR ''/'' ?b"
    by (rule str_split_append_sep) simp
  also have "str_split CHR ''/'' ?b = [?b]"
    using b by (rule str_split_no_sep)
  finally show ?thesis
    using assms by (simp add: normalize_qualified)
qed

section \<open>Normalisation of type names\<close>

text \<open>
  C6. Normalisation leaves a bare name (one without \<open>/\<close>) unchanged, and maps any other
  name to its first segment, \<open>/msg/\<close>, and its second segment. Applying it twice gives the
  same result as applying it once exactly when the name is bare or its second segment is
  already \<open>msg\<close>; in particular an already-qualified \<open>package/kind/name\<close> is rewritten to
  \<open>package/msg/kind\<close>.
\<close>

theorem normalize_msg_name_twice:
  "(CHR ''/'' \<notin> set name \<longrightarrow> normalize_msg_name name = name) \<and>
   (CHR ''/'' \<in> set name \<longrightarrow>
      normalize_msg_name name =
        str_split CHR ''/'' name ! 0 @ ''/msg/'' @ str_split CHR ''/'' name ! 1) \<and>
   (normalize_msg_name (normalize_msg_name name) = normalize_msg_name name \<longleftrightarrow>
      CHR ''/'' \<notin> set name \<or> str_split CHR ''/'' name ! 1 = ''msg'')"
proof (cases "CHR ''/'' \<in> set name")
  case False
  then show ?thesis by (simp add: normalize_bare)
next
  case True
  let ?a = "str_split CHR ''/'' name ! 0" and ?b = "str_split CHR ''/'' name ! 1"
  have once: "normalize_msg_name name = ?a @ ''/msg/'' @ ?b"
    using True by (rule normalize_qualified)
  have "length (str_split CHR ''/'' (normalize_msg_name name)) \<noteq> 1"
    using True by (simp add: str_split_normalized)
  then have "normalize_msg_name (normalize_msg_name name) = ?a @ ''/msg/'' @ ''msg''"
    using True by (simp add: normalize_msg_name_def [of "normalize_msg_name name"]
        str_split_normalized Let_def)
  with once True show ?thesis by auto
qed

theorem normalize_msg_name_twice_witness:
  "normalize_msg_name ''string'' = ''string'' \<and>
   normalize_msg_name ''std_msgs/Header'' = ''std_msgs/msg/Header'' \<and>
   normalize_msg_name (normalize_msg_name ''std_msgs/msg/Header'') =
     normalize_msg_name ''std_msgs/msg/Header''"
proof (intro conjI)
  show "normalize_msg_name ''string'' = ''string''"
    using normalize_msg_name_twice [of "''string''"] by simp
  show "normalize_msg_name ''std_msgs/Header'' = ''std_msgs/msg/Header''"
    using normalize_msg_name_twice [of "''std_msgs/Header''"]
    by (simp add: str_split.simps(2))
  have "CHR ''/'' \<notin> set ''std_msgs/msg/Header'' \<or>
        str_split CHR ''/'' ''std_msgs/msg/Header'' ! 1 = ''msg''"
    by (simp add: str_split.simps(2))
  then show "normalize_msg_name (normalize_msg_name ''std_msgs/msg/Header'') =
          normalize_msg_name ''std_msgs/msg/Header''"
    by (rule iffD2 [OF conjunct2 [OF conjunct2 [OF normalize_msg_name_twice]]])
qed

text \<open>
  An already-qualified name is not returned unchanged, and normalising the result of a
  normalisation changes it again.
\<close>

theorem normalize_msg_name_not_idempotent:
  "normalize_msg_name ''autoware_adapi_v1_msgs/srv/SetRoute'' \<noteq>
     ''autoware_adapi_v1_msgs/srv/SetRoute'' \<and>
   normalize_msg_name (normalize_msg_name ''pkg/Name'') \<noteq> normalize_msg_name ''pkg/Name''"
  by (simp add: normalize_msg_name_def str_split.simps(2))

section \<open>The table formatter\<close>

lemma fold_widths:
  assumes "\<forall>line \<in> set data. length line = length ws"
  shows "length (fold (\<lambda>line widths. map (\<lambda>(a, b). max a b) (zip (map length line) widths)) data ws)
           = length ws \<and>
         (\<forall>j < length ws.
            fold (\<lambda>line widths. map (\<lambda>(a, b). max a b) (zip (map length line) widths)) data ws ! j
              = fold max (map (\<lambda>line. length (line ! j)) data) (ws ! j))"
  using assms
proof (induction data arbitrary: ws)
  case Nil
  show ?case by simp
next
  case (Cons l data)
  let ?ws = "map (\<lambda>(a, b). max a b) (zip (map length l) ws)"
  from Cons.prems have ll: "length l = length ws" by simp
  then have len: "length ?ws = length ws" by simp
  from Cons.prems have "\<forall>line \<in> set data. length line = length ?ws" by simp
  from Cons.IH [OF this] len ll show ?case by simp
qed

lemma column_widths_length:
  "\<forall>line \<in> set data. length line = length header \<Longrightarrow>
     length (column_widths data header) = length header"
  using fold_widths [of data "map length header"] by (simp add: column_widths_def)

lemma column_widths_nth:
  assumes "\<forall>line \<in> set data. length line = length header" and "j < length header"
  shows "column_widths data header ! j =
           Max (set (length (header ! j) # map (\<lambda>line. length (line ! j)) data))"
proof -
  have "column_widths data header ! j =
          fold max (map (\<lambda>line. length (line ! j)) data) (length (header ! j))"
    using fold_widths [of data "map length header"] assms by (simp add: column_widths_def)
  then show ?thesis by (simp only: Max.set_eq_fold)
qed

lemma column_widths_ge_header:
  assumes "\<forall>line \<in> set data. length line = length header" and "j < length header"
  shows "length (header ! j) \<le> column_widths data header ! j"
  using column_widths_nth [OF assms] by simp

lemma column_widths_ge_cell:
  assumes "\<forall>line \<in> set data. length line = length header" and "j < length header"
    and "line \<in> set data"
  shows "length (line ! j) \<le> column_widths data header ! j"
  using column_widths_nth [OF assms(1,2)] assms(3) by simp

lemma collect_all_Inr:
  "\<forall>x \<in> set xs. f x = Inr (g x) \<Longrightarrow> collect (map f xs) = Inr (map g xs)"
  by (induction xs) auto

lemma format_line_ok:
  "length widths \<le> length line \<Longrightarrow>
     format_line widths line = Inr (table_row (map (\<lambda>(w, c). ljust w c) (zip widths line)))"
  by (simp add: format_line_def table_row_def)

lemma ljust_dashes: "ljust w (replicate w c) = replicate w c"
  by (simp add: ljust_def)

lemma ljust_length: "length s \<le> w \<Longrightarrow> length (ljust w s) = w"
  by (simp add: ljust_def)

lemma map_ljust_dashes:
  "map (\<lambda>(w, c). ljust w c) (zip ws (map (\<lambda>w. replicate w d) ws)) = map (\<lambda>w. replicate w d) ws"
  by (induction ws) (auto simp: ljust_dashes)

text \<open>
  C7. For a header and data rows that all have as many cells as the header, the formatter
  computes for each column the maximum of the lengths of the header cell and of all data
  cells of that column; its output is the header row, a separator row made of exactly
  that many dashes per column, and the data rows, every cell padded with spaces on the
  right to exactly the width of its column.
\<close>

theorem tabulate_column_widths:
  assumes rect: "\<forall>line \<in> set data. length line = length header"
  shows "length (column_widths data header) = length header \<and>
         (\<forall>j < length header.
            column_widths data header ! j =
              Max (set (length (header ! j) # map (\<lambda>line. length (line ! j)) data))) \<and>
         tabulate data header =
           Inr (str_join [CHR 0x0A] (map table_row
                 (map (\<lambda>(w, c). ljust w c) (zip (column_widths data header) header) #
                  map (\<lambda>w. replicate w CHR ''-'') (column_widths data header) #
                  map (\<lambda>line. map (\<lambda>(w, c). ljust w c) (zip (column_widths data header) line))
                    data))) \<and>
         (\<forall>line \<in> set (header # data). \<forall>j < length header.
            ljust (column_widths data header ! j) (line ! j) =
              line ! j @ replicate (column_widths data header ! j - length (line ! j)) CHR '' '' \<and>
            length (ljust (column_widths data header ! j) (line ! j)) =
              column_widths data header ! j)"
proof (intro conjI)
  let ?ws = "column_widths data header"
  let ?border = "map (\<lambda>w. replicate w CHR ''-'') ?ws"
  let ?cells = "\<lambda>line. map (\<lambda>(w, c). ljust w c) (zip ?ws line)"
  show len: "length ?ws = length header"
    using rect by (rule column_widths_length)
  show "\<forall>j < length header.
          ?ws ! j = Max (set (length (header ! j) # map (\<lambda>line. length (line ! j)) data))"
    using column_widths_nth [OF rect] by blast
  have "\<forall>line \<in> set (header # ?border # data).
          format_line ?ws line = Inr (table_row (?cells line))"
    using rect len by (auto intro!: format_line_ok)
  then have "collect (map (format_line ?ws) (header # ?border # data)) =
               Inr (map (\<lambda>line. table_row (?cells line)) (header # ?border # data))"
    by (rule collect_all_Inr)
  moreover have "?cells ?border = ?border" by (rule map_ljust_dashes)
  ultimately show "tabulate data header =
      Inr (str_join [CHR 0x0A] (map table_row (?cells header # ?border # map ?cells data)))"
    by (simp add: tabulate_def Let_def comp_def)
  show "\<forall>line \<in> set (header # data). \<forall>j < length header.
          ljust (?ws ! j) (line ! j) = line ! j @ replicate (?ws ! j - length (line ! j)) CHR '' '' \<and>
          length (ljust (?ws ! j) (line ! j)) = ?ws ! j"
  proof (intro ballI allI impI)
    fix line j
    assume line: "line \<in> set (header # data)" and j: "j < length header"
    have "length (line ! j) \<le> ?ws ! j"
      using line column_widths_ge_header [OF rect j] column_widths_ge_cell [OF rect j]
      by auto
    then show "ljust (?ws ! j) (line ! j) = line ! j @ replicate (?ws ! j - length (line ! j)) CHR '' '' \<and>
          length (ljust (?ws ! j) (line ! j)) = ?ws ! j"
      by (simp add: ljust_def)
  qed
qed

theorem tabulate_column_widths_witness:
  "column_widths [[''[a](.a.md)'', ''released'']] [''API'', ''Release''] ! 0 =
     max (length ''API'') (length ''[a](.a.md)'') \<and>
   column_widths [[''[a](.a.md)'', ''released'']] [''API'', ''Release''] ! 1 =
     max (length ''Release'') (length ''released'') \<and>
   tabulate [[''[a](.a.md)'', ''released'']] [''API'', ''Release''] =
     Inr (''| API        | Release  |'' @ [CHR 0x0A] @
          ''| ---------- | -------- |'' @ [CHR 0x0A] @
          ''| [a](.a.md) | released |'')"
proof -
  let ?data = "[[''[a](.a.md)'', ''released'']]" and ?header = "[''API'', ''Release'']"
  have rect: "\<forall>line \<in> set ?data. length line = length ?header" by simp
  note t = tabulate_column_widths [OF rect]
  note w = t [THEN conjunct2, THEN conjunct1, rule_format]
  note tab = t [THEN conjunct2, THEN conjunct2, THEN conjunct1]
  have w0: "column_widths ?data ?header ! 0 = max (length ''API'') (length ''[a](.a.md)'')"
    using w [of 0] by simp
  have w1: "column_widths ?data ?header ! 1 = max (length ''Release'') (length ''released'')"
    using w [of 1] by simp
  have ws: "column_widths ?data ?header = [10, 8]"
    by (simp add: column_widths_def)
  have "tabulate ?data ?header =
     Inr (''| API        | Release  |'' @ [CHR 0x0A] @
          ''| ---------- | -------- |'' @ [CHR 0x0A] @
          ''| [a](.a.md) | released |'')"
    using tab unfolding ws by (simp add: table_row_def ljust_def numeral_eq_Suc)
  with w0 w1 show ?thesis by (intro conjI)
qed

text \<open>
  A data row with fewer cells than the header cuts the table down to its own length:
  \<open>zip\<close> stops at the shorter argument, so no width is computed for the second column
  and the header cell \<open>Release\<close> is not printed at all.
\<close>

theorem tabulate_short_row:
  "column_widths [[''x'']] [''API'', ''Release''] = [3] \<and>
   tabulate [[''x'']] [''API'', ''Release''] =
     Inr (''| API |'' @ [CHR 0x0A] @ ''| --- |'' @ [CHR 0x0A] @ ''| x   |'')"
  by (simp add: column_widths_def tabulate_def format_line_def ljust_def numeral_eq_Suc)

section \<open>The metadata loader\<close>

lemma index_of_Some: "index_of x xs = Some i \<Longrightarrow> i < length xs \<and> xs ! i = x"
  by (induction xs arbitrary: i) (auto split: if_splits)

lemma index_of_None: "index_of x xs = None \<longleftrightarrow> x \<notin> set xs"
  by (induction xs) auto

lemma list_index_Some:
  "list_index x start xs = Some i \<Longrightarrow> start \<le> i \<and> i < length xs \<and> xs ! i = x"
  by (auto simp: list_index_def add.commute dest!: index_of_Some)

lemma list_index_None: "list_index x start xs = None \<longleftrightarrow> x \<notin> set (drop start xs)"
  by (simp add: list_index_def index_of_None)

lemma test_markdown_metadata_mapping:
  "test_markdown_metadata (YMap items) path =
     (if YStr ''status'' \<in> fst ` set items then Inr (YMap items)
      else Inl (KeyError (''status in '' @ path)))"
  by (simp add: test_markdown_metadata_def)

text \<open>
  For a qualifying file whose front-matter block parses to a dict, loading behaves as
  documented: with a \<open>status\<close> key the dict itself is returned, without one the error is
  the \<open>KeyError\<close> that names the file.
\<close>

lemma load_markdown_metadata_mapping:
  assumes "2 < length lines" and "lines ! 0 = ''---''"
    and "list_index ''---'' 1 lines = Some i"
    and "safe_load (str_join [CHR 0x0A] (take (i - 1) (drop 1 lines))) = Inr (YMap items)"
  shows "load_markdown_metadata safe_load path lines =
           (if YStr ''status'' \<in> fst ` set items then Inr (Some (YMap items))
            else Inl (KeyError (''status in '' @ path)))"
  using assms by (simp add: load_markdown_metadata_def test_markdown_metadata_mapping)

text \<open>
  C4. A qualifying file whose front-matter block is empty has no \<open>status\<close> key; its block
  parses to \<open>None\<close>, and the membership test of \<open>test_markdown_metadata\<close> raises
  \<open>TypeError\<close> instead of the \<open>KeyError\<close> that names the file.
\<close>

theorem load_markdown_metadata_empty_block:
  "load_markdown_metadata example_safe_load ''api/x.md'' [''---'', ''---'', ''# Page''] =
     Inl TypeError"
  by (simp add: load_markdown_metadata_def list_index_def test_markdown_metadata_def
      example_safe_load_def)

text \<open>
  C5. A file is skipped without a record and without an error exactly when it has at
  most two lines or its first line is not the delimiter marker.
\<close>

theorem load_markdown_metadata_skips:
  "load_markdown_metadata safe_load path lines = Inr None \<longleftrightarrow>
     \<not> (2 < length lines \<and> lines ! 0 = ''---'')"
proof (cases "2 < length lines \<and> lines ! 0 = ''---''")
  case False
  then show ?thesis by (auto simp: load_markdown_metadata_def)
next
  case True
  have "load_markdown_metadata safe_load path lines \<noteq> Inr None"
  proof (cases "list_index ''---'' 1 lines")
    case None
    with True show ?thesis by (simp add: load_markdown_metadata_def)
  next
    case (Some i)
    show ?thesis
    proof (cases "safe_load (str_join [CHR 0x0A] (take (i - 1) (drop 1 lines)))")
      case (Inl e)
      with True Some show ?thesis by (simp add: load_markdown_metadata_def)
    next
      case (Inr data)
      with True Some show ?thesis
        by (cases "test_markdown_metadata data path") (simp_all add: load_markdown_metadata_def)
    qed
  qed
  with True show ?thesis by simp
qed

theorem load_markdown_metadata_skips_witness:
  "load_markdown_metadata example_safe_load ''api/readme.md'' [''# Readme'', ''---'', ''text'', ''---'']
     = Inr None \<and>
   load_markdown_metadata example_safe_load ''api/short.md'' [''---'', ''---''] = Inr None"
proof
  show "load_markdown_metadata example_safe_load ''api/readme.md''
          [''# Readme'', ''---'', ''text'', ''---''] = Inr None"
    by (rule iffD2 [OF load_markdown_metadata_skips]) simp
  show "load_markdown_metadata example_safe_load ''api/short.md'' [''---'', ''---''] = Inr None"
    by (rule iffD2 [OF load_markdown_metadata_skips]) simp
qed

text \<open>
  A file of more than two lines that opens with the delimiter marker and never repeats it
  has no complete block, yet it is not skipped: \<^verbatim>\<open>lines.index("---", 1)\<close> raises
  \<open>ValueError\<close>.
\<close>

theorem load_markdown_metadata_unclosed_block:
  "load_markdown_metadata example_safe_load ''api/x.md'' [''---'', ''status: draft'', ''# Page''] =
     Inl ValueError"
  by (simp add: load_markdown_metadata_def list_index_def)

text \<open>
  C9. A record produced by loading is the parsed front-matter block itself: loading the
  same lines under any other path gives the same record, so the \<open>title\<close> that \<open>main\<close>
  reads from the record is the \<open>title\<close> entry of the front matter and does not depend on
  the path.
\<close>

theorem load_markdown_metadata_record:
  assumes "load_markdown_metadata safe_load path lines = Inr (Some page)"
  shows "load_markdown_metadata safe_load path' lines = Inr (Some page) \<and>
         (\<exists>i. list_index ''---'' 1 lines = Some i \<and>
              safe_load (str_join [CHR 0x0A] (take (i - 1) (drop 1 lines))) = Inr page)"
proof -
  from assms have guard: "2 < length lines \<and> lines ! 0 = ''---''"
    by (auto simp: load_markdown_metadata_def split: if_splits)
  from assms guard obtain i where i: "list_index ''---'' 1 lines = Some i"
    by (cases "list_index ''---'' 1 lines") (auto simp: load_markdown_metadata_def)
  from assms guard i obtain data where
    data: "safe_load (str_join [CHR 0x0A] (take (i - 1) (drop 1 lines))) = Inr data"
    by (cases "safe_load (str_join [CHR 0x0A] (take (i - 1) (drop 1 lines)))")
      (auto simp: load_markdown_metadata_def)
  from assms guard i data have t: "test_markdown_metadata data path = Inr page"
    by (cases "test_markdown_metadata data path") (auto simp: load_markdown_metadata_def)
  then have "data = page" and "test_markdown_metadata data path' = Inr page"
    by (auto simp: test_markdown_metadata_def split: sum.splits if_splits)
  with guard i data show ?thesis
    by (simp add: load_markdown_metadata_def)
qed

theorem load_markdown_metadata_record_witness:
  "load_markdown_metadata example_safe_load ''other/b.md''
     [''---'', ''title: A'', ''status: draft'', ''---'', ''# Page''] =
   Inr (Some (YMap [(YStr ''title'', YStr ''A''), (YStr ''status'', YStr ''draft'')]))"
proof -
  have "load_markdown_metadata example_safe_load ''api/a.md''
     [''---'', ''title: A'', ''status: draft'', ''---'', ''# Page''] =
   Inr (Some (YMap [(YStr ''title'', YStr ''A''), (YStr ''status'', YStr ''draft'')]))"
    by (simp add: load_markdown_metadata_def list_index_def test_markdown_metadata_def
        example_safe_load_def)
  from load_markdown_metadata_record [OF this, of "''other/b.md''"] show ?thesis
    by (rule conjunct1)
qed

text \<open>
  Two files loaded under the same path whose front matter names different titles give
  records with different titles.
\<close>

theorem title_from_front_matter:
  "load_markdown_metadata example_safe_load ''api/a.md''
     [''---'', ''title: A'', ''status: draft'', ''---'', ''# Page''] =
     Inr (Some (YMap [(YStr ''title'', YStr ''A''), (YStr ''status'', YStr ''draft'')])) \<and>
   load_markdown_metadata example_safe_load ''api/a.md''
     [''---'', ''title: B'', ''status: draft'', ''---'', ''# Page''] =
     Inr (Some (YMap [(YStr ''title'', YStr ''B''), (YStr ''status'', YStr ''draft'')])) \<and>
   subscript (YMap [(YStr ''title'', YStr ''A''), (YStr ''status'', YStr ''draft'')]) ''title'' \<noteq>
   subscript (YMap [(YStr ''title'', YStr ''B''), (YStr ''status'', YStr ''draft'')]) ''title''"
  by (simp add: load_markdown_metadata_def list_index_def test_markdown_metadata_def
      example_safe_load_def)

section \<open>The clean-up of the type pages\<close>

lemma clean_up_subset: "set (snd (clean_up entries)) \<subseteq> set entries"
  by (induction entries rule: clean_up.induct) (auto split: node.splits prod.splits)

lemma clean_up_keeps:
  "filter (\<lambda>e. \<not> is_dir (snd e)) (snd (clean_up entries)) =
   filter (\<lambda>e. \<not> is_dir (snd e)) entries"
  by (induction entries rule: clean_up.induct) (auto split: node.splits prod.splits)

lemma clean_up_removed:
  "e \<in> set entries \<Longrightarrow> e \<notin> set (snd (clean_up entries)) \<Longrightarrow> \<exists>children. snd e = Dir children"
  by (induction entries rule: clean_up.induct) (auto split: node.splits prod.splits if_splits)

text \<open>
  C10. The clean-up creates no entry, removes only directories, and keeps every entry
  that is not a directory, in place and unchanged; in particular every regular file
  directly under the output root is still there with its text.
\<close>

theorem clean_up_frame:
  "set (snd (clean_up entries)) \<subseteq> set entries \<and>
   (\<forall>e \<in> set entries. e \<notin> set (snd (clean_up entries)) \<longrightarrow> (\<exists>children. snd e = Dir children)) \<and>
   filter (\<lambda>e. \<not> is_dir (snd e)) (snd (clean_up entries)) =
     filter (\<lambda>e. \<not> is_dir (snd e)) entries \<and>
   (\<forall>name body. (name, File body) \<in> set entries \<longrightarrow>
      (name, File body) \<in> set (snd (clean_up entries)))"
proof (intro conjI ballI allI impI)
  show "set (snd (clean_up entries)) \<subseteq> set entries" by (rule clean_up_subset)
  show "filter (\<lambda>e. \<not> is_dir (snd e)) (snd (clean_up entries)) =
     filter (\<lambda>e. \<not> is_dir (snd e)) entries" by (rule clean_up_keeps)
next
  fix e assume "e \<in> set entries" "e \<notin> set (snd (clean_up entries))"
  then show "\<exists>children. snd e = Dir children" by (rule clean_up_removed)
next
  fix name body assume "(name, File body) \<in> set entries"
  then have "(name, File body) \<in> set (filter (\<lambda>e. \<not> is_dir (snd e)) entries)" by simp
  then have "(name, File body) \<in> set (filter (\<lambda>e. \<not> is_dir (snd e)) (snd (clean_up entries)))"
    by (simp only: clean_up_keeps)
  then show "(name, File body) \<in> set (snd (clean_up entries))" by simp
qed

theorem clean_up_frame_witness:
  "(''index.md'', File ''# Types of Autoware AD API'') \<in>
     set (snd (clean_up
       [(''autoware_adapi_v1_msgs'', Dir [(''msg'', Dir [(''Heartbeat.md'', File ''---'')])]),
        (''index.md'', File ''# Types of Autoware AD API'')])) \<and>
   clean_up
       [(''autoware_adapi_v1_msgs'', Dir [(''msg'', Dir [(''Heartbeat.md'', File ''---'')])]),
        (''index.md'', File ''# Types of Autoware AD API'')] =
     (None, [(''index.md'', File ''# Types of Autoware AD API'')])"
proof
  let ?entries = "[(''autoware_adapi_v1_msgs'', Dir [(''msg'', Dir [(''Heartbeat.md'', File ''---'')])]),
        (''index.md'', File ''# Types of Autoware AD API'')]"
  have "(''index.md'', File ''# Types of Autoware AD API'') \<in> set ?entries" by simp
  with clean_up_frame [of ?entries]
  show "(''index.md'', File ''# Types of Autoware AD API'') \<in> set (snd (clean_up ?entries))"
    by blast
  show "clean_up ?entries = (None, [(''index.md'', File ''# Types of Autoware AD API'')])"
    by simp
qed

section \<open>One iteration of the resolver\<close>

lemma fold_depends:
  "fold (\<lambda>name deps'. if f name \<notin> seen then insert (f name) deps' else deps') names deps =
     deps \<union> (f ` set names - seen)"
  by (induction names arbitrary: deps) auto

lemma parse_rosidl_spec_eq:
  "parse_rosidl_spec deps seen spec_fields =
     (deps \<union> (strip_array_suffix ` snd ` set (field_dict spec_fields) - seen),
      field_dict spec_fields)"
  by (simp add: parse_rosidl_spec_def Let_def fold_depends)

lemma spec_refs_msg: "spec_refs [(k, flds)] = strip_array_suffix ` snd ` set flds"
  by (force simp: spec_refs_def)

lemma spec_refs_srv:
  "spec_refs [(k, req), (k', res)] =
     strip_array_suffix ` snd ` set req \<union> strip_array_suffix ` snd ` set res"
  by (force simp: spec_refs_def)

lemma spec_refs_drop_empty: "spec_refs (drop_empty sp) = spec_refs sp"
  by (force simp: spec_refs_def drop_empty_def)

lemma parse_rosidl_file_eq:
  "parse_rosidl_file c s name =
     (if is_documentation_msg name then
        (case file_fields c name of
           Inl e \<Rightarrow> Inl e
         | Inr None \<Rightarrow> Inr (s\<lparr>visited := insert name (visited s)\<rparr>)
         | Inr (Some sp) \<Rightarrow>
             Inr (s\<lparr>visited := insert name (visited s),
                     depends := depends s \<union> (spec_refs sp - insert name (visited s)),
                     specs := AList.update name (drop_empty sp) (specs s)\<rparr>))
      else Inr (s\<lparr>visited := insert name (visited s)\<rparr>))"
proof (cases "is_documentation_msg name")
  case False
  then show ?thesis by (simp add: parse_rosidl_file_def)
next
  case True
  show ?thesis
  proof (cases "\<exists>pkg ext msg. str_split CHR ''/'' name = [pkg, ext, msg]")
    case False
    then have "parse_rosidl_file c s name = Inl ValueError"
      using True by (auto simp: parse_rosidl_file_def Let_def split: list.splits)
    moreover have "file_fields c name = Inl ValueError"
      using False by (auto simp: file_fields_def split: list.splits)
    ultimately show ?thesis using True by simp
  next
    case True
    then obtain pkg ext msg where parts: "str_split CHR ''/'' name = [pkg, ext, msg]"
      by blast
    consider (msg) "ext = ''msg''" | (srv) "ext = ''srv''" | (other) "ext \<noteq> ''msg''" "ext \<noteq> ''srv''"
      by blast
    then show ?thesis
    proof cases
      case msg
      show ?thesis
      proof (cases "parse_message_file c pkg msg")
        case (Inl e)
        with msg parts \<open>is_documentation_msg name\<close> show ?thesis
          by (simp add: parse_rosidl_file_def file_fields_def)
      next
        case (Inr m)
        with msg parts \<open>is_documentation_msg name\<close> show ?thesis
          by (simp add: parse_rosidl_file_def file_fields_def parse_rosidl_spec_eq spec_refs_msg)
      qed
    next
      case srv
      show ?thesis
      proof (cases "parse_service_file c pkg msg")
        case (Inl e)
        with srv parts \<open>is_documentation_msg name\<close> show ?thesis
          by (simp add: parse_rosidl_file_def file_fields_def)
      next
        case (Inr r)
        obtain request response where r: "r = (request, response)" by (cases r)
        have sets: "\<And>D A B V :: string set. D \<union> (A - V) \<union> (B - V) = D \<union> (A \<union> B - V)"
          by blast
        from Inr r srv parts \<open>is_documentation_msg name\<close> show ?thesis
          by (simp add: parse_rosidl_file_def file_fields_def parse_rosidl_spec_eq
              spec_refs_srv sets)
      qed
    next
      case other
      with parts \<open>is_documentation_msg name\<close> show ?thesis
        by (simp add: parse_rosidl_file_def file_fields_def)
    qed
  qed
qed

lemma parse_rosidl_file_step:
  assumes "parse_rosidl_file c s name = Inr s'"
  shows "visited s' = insert name (visited s)"
    and "depends s' = depends s \<union> (references c name - insert name (visited s))"
    and "specs s' =
           (case table_entry c name of None \<Rightarrow> specs s | Some e \<Rightarrow> AList.update name e (specs s))"
    and "readable c name"
  using assms
  by (auto simp: parse_rosidl_file_eq references_def table_entry_def readable_def
      split: if_splits sum.splits option.splits)

lemma resolver_inv_step:
  assumes inv: "resolver_inv c seeds s" and name: "name \<in> depends s"
    and step: "parse_rosidl_file c (s\<lparr>depends := depends s - {name}\<rparr>) name = Inr s'"
  shows "resolver_inv c seeds s'"
proof -
  note st = parse_rosidl_file_step [OF step]
  have v: "visited s' = insert name (visited s)" using st(1) by simp
  have d: "depends s' = (depends s - {name}) \<union> (references c name - insert name (visited s))"
    using st(2) by simp
  have sp: "specs s' =
      (case table_entry c name of None \<Rightarrow> specs s | Some e \<Rightarrow> AList.update name e (specs s))"
    using st(3) by (cases "table_entry c name") simp_all
  from inv have seeds: "seeds \<subseteq> visited s \<union> depends s"
    and disj: "depends s \<inter> visited s = {}"
    and refs: "\<forall>n \<in> visited s. references c n \<subseteq> visited s \<union> depends s \<and> readable c n"
    and dist: "distinct (map fst (specs s))"
    and tbl: "map_of (specs s) = (\<lambda>n. if n \<in> visited s then table_entry c n else None)"
    by (simp_all add: resolver_inv_def)
  from name disj have fresh: "name \<notin> visited s" by blast
  have 1: "seeds \<subseteq> visited s' \<union> depends s'" using seeds v d by blast
  have 2: "depends s' \<inter> visited s' = {}" using disj v d by blast
  have 3: "\<forall>n \<in> visited s'. references c n \<subseteq> visited s' \<union> depends s' \<and> readable c n"
  proof
    fix n assume "n \<in> visited s'"
    then consider "n = name" | "n \<in> visited s" using v by blast
    then show "references c n \<subseteq> visited s' \<union> depends s' \<and> readable c n"
    proof cases
      case 1
      then show ?thesis using v d st(4) by blast
    next
      case 2
      with refs have "references c n \<subseteq> visited s \<union> depends s" and "readable c n" by blast+
      then show ?thesis using v d by blast
    qed
  qed
  have 4: "distinct (map fst (specs s'))"
    using dist sp by (cases "table_entry c name") (simp_all add: distinct_update)
  have 5: "map_of (specs s') = (\<lambda>n. if n \<in> visited s' then table_entry c n else None)"
  proof (cases "table_entry c name")
    case None
    with sp tbl v fresh show ?thesis by (auto simp: fun_eq_iff)
  next
    case (Some e)
    with sp tbl v fresh show ?thesis by (auto simp: fun_eq_iff update_conv')
  qed
  from 1 2 3 4 5 show ?thesis by (simp add: resolver_inv_def)
qed

lemma resolver_inv_init: "resolver_inv c (set names) \<lparr>depends = set names, visited = {}, specs = []\<rparr>"
  by (simp add: resolver_inv_def)

lemma resolve_loop_inv:
  assumes "resolve_loop c pop fuel popped s = Some (Inr s')" and "resolver_inv c seeds s"
  shows "resolver_inv c seeds s' \<and> depends s' = {}"
  using assms
proof (induction fuel arbitrary: popped s)
  case 0
  then show ?case by (auto split: if_splits)
next
  case (Suc fuel)
  show ?case
  proof (cases "depends s = {}")
    case True
    with Suc.prems show ?thesis by simp
  next
    case False
    let ?name = "pop popped (depends s)"
    from Suc.prems(1) False have mem: "?name \<in> depends s"
      by (auto split: if_splits)
    from Suc.prems(1) False mem obtain s1 where
      step: "parse_rosidl_file c (s\<lparr>depends := depends s - {?name}\<rparr>) ?name = Inr s1"
      and rest: "resolve_loop c pop fuel (popped @ [?name]) s1 = Some (Inr s')"
      by (cases "parse_rosidl_file c (s\<lparr>depends := depends s - {?name}\<rparr>) ?name") auto
    from resolver_inv_step [OF Suc.prems(2) mem step] have "resolver_inv c seeds s1" .
    from Suc.IH [OF rest this] show ?thesis .
  qed
qed

lemma resolve_inv:
  assumes "resolve c pop fuel names = Some (Inr s)"
  shows "resolver_inv c (set names) s" and "depends s = {}"
  using resolve_loop_inv [OF assms [unfolded resolve_def] resolver_inv_init] by simp_all

lemma table_entry_documentation: "table_entry c name = Some e \<Longrightarrow> is_documentation_msg name"
  by (simp add: table_entry_def split: if_splits)

lemma resolver_inv_keys:
  assumes "resolver_inv c seeds s" and "name \<in> fst ` set (specs s)"
  shows "name \<in> visited s \<and> is_documentation_msg name"
proof -
  from assms(2) have "map_of (specs s) name \<noteq> None"
    by (simp add: map_of_eq_None_iff)
  with assms(1) show ?thesis
    by (auto simp: resolver_inv_def dest: table_entry_documentation split: if_splits)
qed

section \<open>The resolver on the example corpus\<close>

lemma is_documentation_msg_examples:
  "is_documentation_msg ''autoware_adapi_v1_msgs/srv/S''"
  "is_documentation_msg ''autoware_adapi_v1_msgs/msg/A''"
  "is_documentation_msg ''autoware_adapi_v1_msgs/msg/B''"
  "\<not> is_documentation_msg ''uint8''"
  "\<not> is_documentation_msg ''float64''"
  by (simp_all add: is_documentation_msg_def targets_def str_split.simps(2))

lemma str_split_examples:
  "str_split CHR ''/'' ''autoware_adapi_v1_msgs/srv/S'' = [''autoware_adapi_v1_msgs'', ''srv'', ''S'']"
  "str_split CHR ''/'' ''autoware_adapi_v1_msgs/msg/A'' = [''autoware_adapi_v1_msgs'', ''msg'', ''A'']"
  "str_split CHR ''/'' ''autoware_adapi_v1_msgs/msg/B'' = [''autoware_adapi_v1_msgs'', ''msg'', ''B'']"
  by (simp_all add: str_split.simps(2))

lemma file_fields_examples:
  "file_fields example_corpus ''autoware_adapi_v1_msgs/srv/S'' =
     Inr (Some [(''req'', [(''items'', ''autoware_adapi_v1_msgs/msg/A[]'')]),
                (''res'', [(''state'', ''autoware_adapi_v1_msgs/msg/B'')])])"
  "file_fields example_corpus ''autoware_adapi_v1_msgs/msg/A'' =
     Inr (Some [(''msg'', [(''b'', ''autoware_adapi_v1_msgs/msg/B''), (''n'', ''uint8'')])])"
  "file_fields example_corpus ''autoware_adapi_v1_msgs/msg/B'' =
     Inr (Some [(''msg'', [(''v'', ''float64'')])])"
  by (simp_all add: file_fields_def str_split_examples example_corpus_def field_dict_def
      normalize_msg_name_def str_split.simps(2))

lemma spec_refs_examples:
  "spec_refs [(''req'', [(''items'', ''autoware_adapi_v1_msgs/msg/A[]'')]),
              (''res'', [(''state'', ''autoware_adapi_v1_msgs/msg/B'')])] =
     {''autoware_adapi_v1_msgs/msg/A'', ''autoware_adapi_v1_msgs/msg/B''}"
  "spec_refs [(''msg'', [(''b'', ''autoware_adapi_v1_msgs/msg/B''), (''n'', ''uint8'')])] =
     {''autoware_adapi_v1_msgs/msg/B'', ''uint8''}"
  "spec_refs [(''msg'', [(''v'', ''float64'')])] = {''float64''}"
  by (simp_all add: spec_refs_def strip_array_suffix_def str_split.simps(2) insert_commute)

lemma example_run_A_first:
  "resolve example_corpus (pop_first order_A_first) 5 example_names = Some (Inr result_A_first)"
  by (simp add: resolve_def numeral_eq_Suc pop_first_def parse_rosidl_file_eq
      is_documentation_msg_examples file_fields_examples spec_refs_examples drop_empty_def
      insert_Diff_if insert_commute example_names_def order_A_first_def result_A_first_def)

lemma example_run_B_first:
  "resolve example_corpus (pop_first order_B_first) 5 example_names = Some (Inr result_B_first)"
  by (simp add: resolve_def numeral_eq_Suc pop_first_def parse_rosidl_file_eq
      is_documentation_msg_examples file_fields_examples spec_refs_examples drop_empty_def
      insert_Diff_if insert_commute example_names_def order_B_first_def result_B_first_def)

section \<open>The result of the resolver\<close>

text \<open>
  C2. When the resolver's loop has completed, every seed name is in the visited set, and
  every key of the table is a documentation type: a name that is not one is never a key
  (it can be a field value, as \<open>uint8\<close> is in the example).
\<close>

theorem resolve_visited_keys:
  assumes "resolve c pop fuel names = Some (Inr s)"
  shows "set names \<subseteq> visited s \<and>
         (\<forall>name \<in> fst ` set (specs s). is_documentation_msg name) \<and>
         (\<forall>name. \<not> is_documentation_msg name \<longrightarrow> name \<notin> fst ` set (specs s))"
proof -
  note inv = resolve_inv [OF assms]
  from inv have "set names \<subseteq> visited s" by (simp add: resolver_inv_def)
  moreover have "\<forall>name \<in> fst ` set (specs s). is_documentation_msg name"
    using resolver_inv_keys [OF inv(1)] by auto
  ultimately show ?thesis by auto
qed

theorem resolve_visited_keys_witness:
  "''autoware_adapi_v1_msgs/srv/S'' \<in> visited result_A_first \<and>
   is_documentation_msg ''autoware_adapi_v1_msgs/msg/A'' \<and>
   ''uint8'' \<notin> fst ` set (specs result_A_first) \<and>
   ''uint8'' \<in> snd ` set [(''b'', ''autoware_adapi_v1_msgs/msg/B''), (''n'', ''uint8'')]"
proof -
  note r = resolve_visited_keys [OF example_run_A_first]
  from r have "set example_names \<subseteq> visited result_A_first" by (rule conjunct1)
  then have a: "''autoware_adapi_v1_msgs/srv/S'' \<in> visited result_A_first"
    by (simp add: example_names_def)
  have "''autoware_adapi_v1_msgs/msg/A'' \<in> fst ` set (specs result_A_first)"
    by (simp add: result_A_first_def)
  with r [THEN conjunct2, THEN conjunct1]
  have b: "is_documentation_msg ''autoware_adapi_v1_msgs/msg/A''" by (rule bspec)
  have c: "\<not> is_documentation_msg ''uint8''" by (rule is_documentation_msg_examples)
  have d: "''uint8'' \<in> snd ` set [(''b'', ''autoware_adapi_v1_msgs/msg/B''), (''n'', ''uint8'')]"
    by simp
  from r [THEN conjunct2, THEN conjunct2, rule_format, OF c] a b d show ?thesis
    by (intro conjI)
qed

section \<open>Termination of the resolver\<close>

lemma parse_rosidl_file_within:
  assumes step: "parse_rosidl_file c (s\<lparr>depends := depends s - {name}\<rparr>) name = Inr s'"
    and name: "name \<in> depends s"
    and disj: "depends s \<inter> visited s = {}"
    and sub: "depends s \<union> visited s \<subseteq> U"
    and closed: "closed_under c U"
  shows "visited s \<subset> visited s'" and "visited s' = insert name (visited s)"
    and "depends s' \<inter> visited s' = {}" and "depends s' \<union> visited s' \<subseteq> U"
proof -
  note st = parse_rosidl_file_step [OF step]
  show v: "visited s' = insert name (visited s)" using st(1) by simp
  have d: "depends s' = (depends s - {name}) \<union> (references c name - insert name (visited s))"
    using st(2) by simp
  from name disj have "name \<notin> visited s" by blast
  with v show "visited s \<subset> visited s'" by auto
  from disj v d show "depends s' \<inter> visited s' = {}" by auto
  from name sub have "name \<in> U" by blast
  with closed have "references c name \<subseteq> U" by (simp add: closed_under_def)
  with sub v d \<open>name \<in> U\<close> show "depends s' \<union> visited s' \<subseteq> U" by auto
qed

lemma resolve_loop_returns:
  assumes "finite U" and "closed_under c U" and "pops_member pop U"
    and "depends s \<inter> visited s = {}" and "depends s \<union> visited s \<subseteq> U"
    and "card (U - visited s) \<le> fuel"
  shows "\<exists>r. resolve_loop c pop fuel popped s = Some r"
  using assms(4-6)
proof (induction fuel arbitrary: popped s)
  case 0
  with assms(1) have "U \<subseteq> visited s" by simp
  with "0.prems" have "depends s = {}" by auto
  then show ?case by simp
next
  case (Suc fuel)
  show ?case
  proof (cases "depends s = {}")
    case True
    then show ?thesis by simp
  next
    case False
    let ?name = "pop popped (depends s)"
    from False Suc.prems(2) assms(3) have mem: "?name \<in> depends s"
      by (simp add: pops_member_def)
    show ?thesis
    proof (cases "parse_rosidl_file c (s\<lparr>depends := depends s - {?name}\<rparr>) ?name")
      case (Inl e)
      with False mem show ?thesis by simp
    next
      case (Inr s1)
      note w = parse_rosidl_file_within [OF Inr mem Suc.prems(1,2) assms(2)]
      from mem Suc.prems(1,2) have "?name \<in> U - visited s" by auto
      moreover have "finite (U - visited s)" using assms(1) by simp
      ultimately have "card (U - visited s - {?name}) < card (U - visited s)"
        by (rule card_Diff1_less [rotated])
      moreover have "U - insert ?name (visited s) = U - visited s - {?name}" by auto
      ultimately have "card (U - insert ?name (visited s)) < card (U - visited s)" by simp
      with Suc.prems(3) w(2) have "card (U - visited s1) \<le> fuel" by simp
      from Suc.IH [OF w(3) w(4) this, of "popped @ [?name]"] Inr False mem
      show ?thesis by simp
    qed
  qed
qed

text \<open>
  C3. Let \<open>U\<close> be a finite universe of type names that holds the seeds and every name
  that a schema of one of its names refers to. For every pop strategy the loop returns
  (the final collections or the error raised) within \<open>card U\<close> iterations. In every
  iteration that starts with \<open>depends\<close> and \<open>visited\<close> disjoint and within \<open>U\<close>, as they
  are at the start, the visited set grows strictly and both stay disjoint and within \<open>U\<close>.
\<close>

theorem resolve_terminates:
  assumes "finite U" and "set names \<subseteq> U" and "closed_under c U" and "pops_member pop U"
    and "card U \<le> fuel"
  shows "(\<exists>r. resolve c pop fuel names = Some r) \<and>
         (\<forall>s name s'.
            depends s \<inter> visited s = {} \<and> depends s \<union> visited s \<subseteq> U \<and> name \<in> depends s \<and>
            parse_rosidl_file c (s\<lparr>depends := depends s - {name}\<rparr>) name = Inr s' \<longrightarrow>
            visited s \<subset> visited s' \<and> depends s' \<inter> visited s' = {} \<and>
            depends s' \<union> visited s' \<subseteq> U)"
proof
  show "\<exists>r. resolve c pop fuel names = Some r"
    unfolding resolve_def
    using assms by (intro resolve_loop_returns [of U]) simp_all
  show "\<forall>s name s'.
            depends s \<inter> visited s = {} \<and> depends s \<union> visited s \<subseteq> U \<and> name \<in> depends s \<and>
            parse_rosidl_file c (s\<lparr>depends := depends s - {name}\<rparr>) name = Inr s' \<longrightarrow>
            visited s \<subset> visited s' \<and> depends s' \<inter> visited s' = {} \<and>
            depends s' \<union> visited s' \<subseteq> U"
  proof (intro allI impI)
    fix s name s'
    assume a: "depends s \<inter> visited s = {} \<and> depends s \<union> visited s \<subseteq> U \<and> name \<in> depends s \<and>
            parse_rosidl_file c (s\<lparr>depends := depends s - {name}\<rparr>) name = Inr s'"
    then have step: "parse_rosidl_file c (s\<lparr>depends := depends s - {name}\<rparr>) name = Inr s'"
      and name: "name \<in> depends s" and disj: "depends s \<inter> visited s = {}"
      and sub: "depends s \<union> visited s \<subseteq> U"
      by simp_all
    note w = parse_rosidl_file_within [OF step name disj sub assms(3)]
    from w(1) w(3) w(4)
    show "visited s \<subset> visited s' \<and> depends s' \<inter> visited s' = {} \<and>
            depends s' \<union> visited s' \<subseteq> U"
      by (intro conjI)
  qed
qed

lemma pop_first_member: "pops_member (pop_first order) (set order)"
proof -
  have "pop_first order popped pending \<in> pending"
    if "pending \<noteq> {}" and "pending \<subseteq> set order" for popped pending
  proof -
    from that have "filter (\<lambda>n. n \<in> pending) order \<noteq> []"
      by (auto simp: filter_empty_conv)
    then obtain n ns where f: "filter (\<lambda>n. n \<in> pending) order = n # ns"
      by (cases "filter (\<lambda>n. n \<in> pending) order") auto
    then have "n \<in> set (filter (\<lambda>n. n \<in> pending) order)" by simp
    then have "n \<in> pending" by simp
    with f show ?thesis by (simp add: pop_first_def)
  qed
  then show ?thesis by (simp add: pops_member_def)
qed

lemma references_examples:
  "references example_corpus ''autoware_adapi_v1_msgs/srv/S'' =
     {''autoware_adapi_v1_msgs/msg/A'', ''autoware_adapi_v1_msgs/msg/B''}"
  "references example_corpus ''autoware_adapi_v1_msgs/msg/A'' =
     {''autoware_adapi_v1_msgs/msg/B'', ''uint8''}"
  "references example_corpus ''autoware_adapi_v1_msgs/msg/B'' = {''float64''}"
  "references example_corpus ''uint8'' = {}"
  "references example_corpus ''float64'' = {}"
  by (simp_all add: references_def is_documentation_msg_examples file_fields_examples
      spec_refs_examples)

theorem resolve_terminates_witness:
  "\<exists>r. resolve example_corpus (pop_first order_A_first) 5 example_names = Some r"
proof -
  have fin: "finite (set order_A_first)" by simp
  have seeds: "set example_names \<subseteq> set order_A_first"
    by (simp add: example_names_def order_A_first_def)
  have closed: "closed_under example_corpus (set order_A_first)"
    by (simp add: closed_under_def references_examples order_A_first_def)
  have pops: "pops_member (pop_first order_A_first) (set order_A_first)"
    by (rule pop_first_member)
  have fuel: "card (set order_A_first) \<le> 5"
    by (rule le_trans [OF card_length]) (simp add: order_A_first_def)
  from resolve_terminates [OF fin seeds closed pops fuel] show ?thesis
    by (rule conjunct1)
qed

section \<open>Independence of the traversal order\<close>

lemma resolve_loop_within:
  assumes "resolve_loop c pop fuel popped s = Some (Inr s')"
    and "closed_under c C" and "depends s \<union> visited s \<subseteq> C"
  shows "visited s' \<subseteq> C"
  using assms(1,3)
proof (induction fuel arbitrary: popped s)
  case 0
  then show ?case by (auto split: if_splits)
next
  case (Suc fuel)
  show ?case
  proof (cases "depends s = {}")
    case True
    with Suc.prems show ?thesis by auto
  next
    case False
    let ?name = "pop popped (depends s)"
    from Suc.prems(1) False have mem: "?name \<in> depends s"
      by (auto split: if_splits)
    from Suc.prems(1) False mem obtain s1 where
      step: "parse_rosidl_file c (s\<lparr>depends := depends s - {?name}\<rparr>) ?name = Inr s1"
      and rest: "resolve_loop c pop fuel (popped @ [?name]) s1 = Some (Inr s')"
      by (cases "parse_rosidl_file c (s\<lparr>depends := depends s - {?name}\<rparr>) ?name") auto
    note st = parse_rosidl_file_step [OF step]
    from mem Suc.prems(2) have "?name \<in> C" by auto
    with assms(2) have "references c ?name \<subseteq> C" by (simp add: closed_under_def)
    with st(1,2) Suc.prems(2) \<open>?name \<in> C\<close> have "depends s1 \<union> visited s1 \<subseteq> C"
      by auto
    from Suc.IH [OF rest this] show ?thesis .
  qed
qed

lemma resolve_visited_closed:
  assumes "resolve c pop fuel names = Some (Inr s)"
  shows "closed_under c (visited s)" and "set names \<subseteq> visited s"
  using resolve_inv [OF assms] by (auto simp: resolver_inv_def closed_under_def)

lemma resolve_visited_least:
  assumes "resolve c pop fuel names = Some (Inr s)"
    and "closed_under c C" and "set names \<subseteq> C"
  shows "visited s \<subseteq> C"
  using resolve_loop_within [OF assms(1) [unfolded resolve_def] assms(2)] assms(3) by simp

lemma filter_same_key:
  "distinct (map fst zs) \<Longrightarrow> k \<in> set zs \<Longrightarrow> filter (\<lambda>x. fst k = fst x) zs = [k]"
proof (induction zs)
  case Nil
  then show ?case by simp
next
  case (Cons z zs)
  show ?case
  proof (cases "k = z")
    case True
    from Cons.prems(1) have "\<forall>x \<in> set zs. fst z \<noteq> fst x" by (auto simp: image_iff)
    then have "filter (\<lambda>x. fst z = fst x) zs = []" by (simp add: filter_empty_conv)
    with True show ?thesis by simp
  next
    case False
    with Cons.prems have k: "k \<in> set zs" by simp
    with Cons.prems(1) have "fst k \<noteq> fst z" by (auto simp: image_iff)
    with Cons k show ?thesis by simp
  qed
qed

lemma sorted_items_unique:
  assumes dx: "distinct (map fst xs)" and dy: "distinct (map fst ys)"
    and eq: "map_of xs = map_of ys"
  shows "sorted_items xs = sorted_items ys"
  unfolding sorted_items_def
proof (rule properties_for_sort_key)
  from dx dy eq have sets: "set xs = set ys" by (simp add: map_of_inject_set)
  from dx dy have "distinct xs" "distinct ys" by (simp_all add: distinct_map)
  with sets have "mset ys = mset xs" by (simp add: set_eq_iff_mset_eq_distinct)
  then show "mset (sort_key fst ys) = mset xs" by simp
  show "sorted (map fst (sort_key fst ys))" by simp
  fix k assume "k \<in> set (sort_key fst ys)"
  then have k: "k \<in> set ys" by simp
  have "filter (\<lambda>x. fst k = fst x) (sort_key fst ys) = sort_key fst (filter (\<lambda>x. fst k = fst x) ys)"
    by (rule filter_sort)
  also have "\<dots> = [k]" using filter_same_key [OF dy k] by simp
  also have "\<dots> = filter (\<lambda>x. fst k = fst x) xs"
    using filter_same_key [OF dx] k sets by simp
  finally show "filter (\<lambda>x. fst k = fst x) (sort_key fst ys) = filter (\<lambda>x. fst k = fst x) xs" .
qed

text \<open>
  C8. Two completed runs of the resolver over the same corpus and the same seeds, whatever
  names their pops yield, visit the same names and end with the same mapping from type
  names to specs; the tables may list their items in different orders, but the YAML
  export, which sorts the items of every dict by key, is the same text.
\<close>

theorem resolve_order_independent:
  assumes run1: "resolve c pop1 fuel1 names = Some (Inr s1)"
    and run2: "resolve c pop2 fuel2 names = Some (Inr s2)"
  shows "visited s1 = visited s2 \<and>
         map_of (specs s1) = map_of (specs s2) \<and>
         yaml_dump emit (specs s1) = yaml_dump emit (specs s2)"
proof -
  have "visited s1 \<subseteq> visited s2"
    using resolve_visited_least [OF run1 resolve_visited_closed [OF run2]] .
  moreover have "visited s2 \<subseteq> visited s1"
    using resolve_visited_least [OF run2 resolve_visited_closed [OF run1]] .
  ultimately have v: "visited s1 = visited s2" by (rule subset_antisym)
  note inv1 = resolve_inv(1) [OF run1] and inv2 = resolve_inv(1) [OF run2]
  from inv1 inv2 v have m: "map_of (specs s1) = map_of (specs s2)"
    by (simp add: resolver_inv_def)
  from inv1 inv2 have "distinct (map fst (specs s1))" "distinct (map fst (specs s2))"
    by (simp_all add: resolver_inv_def)
  from sorted_items_unique [OF this m] have "represent_specs (specs s1) = represent_specs (specs s2)"
    by (simp add: represent_specs_def)
  with v m show ?thesis by (simp add: yaml_dump_def)
qed

theorem resolve_order_independent_witness:
  "visited result_A_first = visited result_B_first \<and>
   map_of (specs result_A_first) = map_of (specs result_B_first) \<and>
   (\<forall>emit. yaml_dump emit (specs result_A_first) = yaml_dump emit (specs result_B_first)) \<and>
   specs result_A_first \<noteq> specs result_B_first"
proof -
  note r = resolve_order_independent [OF example_run_A_first example_run_B_first]
  have "specs result_A_first \<noteq> specs result_B_first"
    by (simp add: result_A_first_def result_B_first_def)
  with r show ?thesis by simp
qed

section \<open>The dependency graph\<close>

lemma for_each_invariant:
  assumes "P s" and "\<And>x s. x \<in> set xs \<Longrightarrow> P s \<Longrightarrow> \<exists>s'. body x s = Inr s' \<and> P s'"
  shows "\<exists>s'. for_each body xs s = Inr s' \<and> P s'"
  using assms
proof (induction xs arbitrary: s)
  case Nil
  then show ?case by simp
next
  case (Cons x xs)
  from Cons.prems(2) [of x s] Cons.prems(1) obtain s1 where
    s1: "body x s = Inr s1" "P s1" by auto
  have "\<exists>s'. for_each body xs s1 = Inr s' \<and> P s'"
  proof (rule Cons.IH)
    show "P s1" by (rule s1(2))
    show "\<exists>s'. body y t = Inr s' \<and> P s'" if "y \<in> set xs" "P t" for y t
      using Cons.prems(2) [of y t] that by simp
  qed
  with s1(1) show ?case by simp
qed

lemma record_use_transposed:
  assumes g: "transposed keys g" and user: "user \<in> keys"
    and name: "is_documentation_msg (strip_array_suffix name) \<longrightarrow> strip_array_suffix name \<in> keys"
  shows "\<exists>g'. record_use user name g = Inr g' \<and> transposed keys g'"
proof (cases "is_documentation_msg (strip_array_suffix name)")
  case False
  with g show ?thesis by (simp add: record_use_def)
next
  case True
  let ?n = "strip_array_suffix name"
  from g have du: "dom (fst g) = keys" and dd: "dom (snd g) = keys"
    and tr: "\<And>a b. b \<in> members (fst g) a \<longleftrightarrow> a \<in> members (snd g) b"
    by (simp_all add: transposed_def)
  from user du obtain xs where xs: "fst g user = Some xs" by auto
  from True name dd obtain ys where ys: "snd g ?n = Some ys" by auto
  let ?uses = "(fst g)(user \<mapsto> insert ?n xs)" and ?used = "(snd g)(?n \<mapsto> insert user ys)"
  have run: "record_use user name g = Inr (?uses, ?used)"
    using True xs ys by (simp add: record_use_def add_to_def)
  have "dom ?uses = keys" using du user by auto
  moreover have "dom ?used = keys" using dd True name by auto
  moreover have "b \<in> members ?uses a \<longleftrightarrow> a \<in> members ?used b" for a b
  proof -
    have l: "b \<in> members ?uses a \<longleftrightarrow> (a = user \<and> b = ?n) \<or> b \<in> members (fst g) a"
      using xs by (auto simp: members_def)
    have r: "a \<in> members ?used b \<longleftrightarrow> (b = ?n \<and> a = user) \<or> a \<in> members (snd g) b"
      using ys by (auto simp: members_def)
    from l r tr [of b a] show ?thesis by auto
  qed
  ultimately have "transposed keys (?uses, ?used)" by (simp add: transposed_def)
  with run show ?thesis by simp
qed

lemma dependencies_are_transposed:
  assumes "references_resolved table"
  shows "\<exists>g. type_dependencies table = Inr g \<and> transposed (fst ` set table) g"
  unfolding type_dependencies_def
proof (rule for_each_invariant [where P = "transposed (fst ` set table)"])
  let ?empty = "map_of (map (\<lambda>(name, sp). (name, {})) table) :: string \<rightharpoonup> string set"
  have dom: "dom ?empty = fst ` set table"
    by (force simp: dom_map_of_conv_image_fst image_iff)
  have "?empty a = Some xs \<Longrightarrow> xs = {}" for a xs
    by (auto dest!: map_of_SomeD)
  then have "members ?empty a = {}" for a
    by (auto simp: members_def split: option.splits)
  with dom show "transposed (fst ` set table) (?empty, ?empty)"
    by (simp add: transposed_def)
next
  fix entry g
  assume entry: "entry \<in> set table" and g: "transposed (fst ` set table) g"
  obtain user sp where e: "entry = (user, sp)" by (cases entry)
  from entry e have user: "user \<in> fst ` set table" by force
  from assms entry e have refs:
    "\<forall>name \<in> spec_refs sp. is_documentation_msg name \<longrightarrow> name \<in> fst ` set table"
    by (auto simp: references_resolved_def)
  have "\<exists>g'. for_each (\<lambda>(key, field). for_each (\<lambda>(fname, name). record_use user name) field) sp g
            = Inr g' \<and> transposed (fst ` set table) g'"
  proof (rule for_each_invariant [where P = "transposed (fst ` set table)"])
    show "transposed (fst ` set table) g" by (rule g)
  next
    fix item h
    assume item: "item \<in> set sp" and h: "transposed (fst ` set table) h"
    obtain key field where i: "item = (key, field)" by (cases item)
    have "\<exists>h'. for_each (\<lambda>(fname, name). record_use user name) field h = Inr h' \<and>
             transposed (fst ` set table) h'"
    proof (rule for_each_invariant [where P = "transposed (fst ` set table)"])
      show "transposed (fst ` set table) h" by (rule h)
    next
      fix fld k
      assume fld: "fld \<in> set field" and k: "transposed (fst ` set table) k"
      obtain fname name where f: "fld = (fname, name)" by (cases fld)
      from item i fld f have "strip_array_suffix name \<in> spec_refs sp"
        by (force simp: spec_refs_def)
      with refs have "is_documentation_msg (strip_array_suffix name) \<longrightarrow>
          strip_array_suffix name \<in> fst ` set table" by simp
      from record_use_transposed [OF k user this] f
      show "\<exists>k'. (case fld of (fname, name) \<Rightarrow> record_use user name) k = Inr k' \<and>
              transposed (fst ` set table) k'" by simp
    qed
    with i show "\<exists>h'. (case item of (key, field) \<Rightarrow>
        for_each (\<lambda>(fname, name). record_use user name) field) h = Inr h' \<and>
        transposed (fst ` set table) h'" by simp
  qed
  with e show "\<exists>g'. (case entry of (user, sp) \<Rightarrow> for_each
        (\<lambda>(key, field). for_each (\<lambda>(fname, name). record_use user name) field) sp) g = Inr g' \<and>
        transposed (fst ` set table) g'" by simp
qed

section \<open>No dangling references in the resolver's table\<close>

lemma strip_array_suffix_takeWhile:
  "strip_array_suffix name = takeWhile (\<lambda>x. x \<noteq> CHR ''['') name"
  by (simp add: strip_array_suffix_def hd_str_split)

lemma kind_of_reference:
  assumes "str_split CHR ''/'' (strip_array_suffix (normalize_msg_name t)) = [pkg, ext, msg]"
  shows "ext = ''msg''"
proof (cases "CHR ''/'' \<in> set t")
  case False
  then have "CHR ''/'' \<notin> set (strip_array_suffix (normalize_msg_name t))"
    by (auto simp: normalize_bare strip_array_suffix_takeWhile dest: set_takeWhileD)
  then have "str_split CHR ''/'' (strip_array_suffix (normalize_msg_name t)) =
      [strip_array_suffix (normalize_msg_name t)]"
    by (rule str_split_no_sep)
  with assms show ?thesis by simp
next
  case True
  let ?a = "str_split CHR ''/'' t ! 0" and ?b = "str_split CHR ''/'' t ! 1"
  let ?P = "\<lambda>x. x \<noteq> CHR ''[''"
  have n: "normalize_msg_name t = ?a @ ''/msg/'' @ ?b"
    using True by (rule normalize_qualified)
  from str_split_two_parts [OF True] have "?a \<in> set (str_split CHR ''/'' t)"
    by (metis list.set_intros(1))
  then have a: "CHR ''/'' \<notin> set ?a" by (rule str_split_parts_no_sep)
  show ?thesis
  proof (cases "CHR ''['' \<in> set ?a")
    case True
    then have "takeWhile ?P (?a @ ''/msg/'' @ ?b) = takeWhile ?P ?a"
      by (intro takeWhile_append1 [of "CHR ''[''"]) simp_all
    with a n have "CHR ''/'' \<notin> set (strip_array_suffix (normalize_msg_name t))"
      by (auto simp: strip_array_suffix_takeWhile dest: set_takeWhileD)
    then have "str_split CHR ''/'' (strip_array_suffix (normalize_msg_name t)) =
        [strip_array_suffix (normalize_msg_name t)]"
      by (rule str_split_no_sep)
    with assms show ?thesis by simp
  next
    case False
    then have "takeWhile ?P (?a @ ''/msg/'' @ ?b) = ?a @ takeWhile ?P (''/msg/'' @ ?b)"
      by (intro takeWhile_append2) auto
    then have "strip_array_suffix (normalize_msg_name t) =
        ?a @ CHR ''/'' # (''msg'' @ CHR ''/'' # takeWhile ?P ?b)"
      using n by (simp add: strip_array_suffix_takeWhile)
    then have "str_split CHR ''/'' (strip_array_suffix (normalize_msg_name t)) =
        ?a # str_split CHR ''/'' (''msg'' @ CHR ''/'' # takeWhile ?P ?b)"
      using a by (simp add: str_split_append_sep)
    also have "str_split CHR ''/'' (''msg'' @ CHR ''/'' # takeWhile ?P ?b) =
        ''msg'' # str_split CHR ''/'' (takeWhile ?P ?b)"
      by (rule str_split_append_sep) simp
    finally show ?thesis using assms by simp
  qed
qed

lemma alist_update_subset: "set (AList.update k v al) \<subseteq> insert (k, v) (set al)"
  by (induction al) auto

lemma field_dict_values:
  "v \<in> snd ` set (field_dict fs) \<Longrightarrow> \<exists>t. v = normalize_msg_name t"
proof -
  have "\<forall>v \<in> snd ` set (fold (\<lambda>(fname, ftype). AList.update fname (normalize_msg_name ftype)) fs acc).
          \<exists>t. v = normalize_msg_name t"
    if "\<forall>v \<in> snd ` set acc. \<exists>t. v = normalize_msg_name t" for acc
    using that
  proof (induction fs arbitrary: acc)
    case Nil
    then show ?case by simp
  next
    case (Cons f fs)
    obtain fname ftype where f: "f = (fname, ftype)" by (cases f)
    have "set (AList.update fname (normalize_msg_name ftype) acc) \<subseteq>
            insert (fname, normalize_msg_name ftype) (set acc)"
      by (rule alist_update_subset)
    with Cons.prems have
      "\<forall>v \<in> snd ` set (AList.update fname (normalize_msg_name ftype) acc). \<exists>t. v = normalize_msg_name t"
      by fastforce
    from Cons.IH [OF this] f show ?case by simp
  qed
  from this [of "[]"] show "v \<in> snd ` set (field_dict fs) \<Longrightarrow> \<exists>t. v = normalize_msg_name t"
    by (auto simp: field_dict_def)
qed

lemma file_fields_refs:
  assumes "file_fields c name = Inr (Some sp)" and "r \<in> spec_refs sp"
  shows "\<exists>t. r = strip_array_suffix (normalize_msg_name t)"
proof -
  from assms(2) obtain key flds fname v where
    m: "(key, flds) \<in> set sp" "(fname, v) \<in> set flds" "r = strip_array_suffix v"
    by (auto simp: spec_refs_def)
  from assms(1) m(1) obtain fs where "flds = field_dict fs"
    by (auto simp: file_fields_def split: list.splits if_splits sum.splits prod.splits)
  with m(2) have "v \<in> snd ` set (field_dict fs)" by force
  from field_dict_values [OF this] m(3) show ?thesis by auto
qed

lemma file_fields_reference_kind:
  assumes "file_fields c (strip_array_suffix (normalize_msg_name t)) = Inr r"
  shows "\<exists>sp. r = Some sp"
proof -
  let ?n = "strip_array_suffix (normalize_msg_name t)"
  from assms obtain pkg ext msg where parts: "str_split CHR ''/'' ?n = [pkg, ext, msg]"
    by (auto simp: file_fields_def split: list.splits)
  from kind_of_reference [OF parts] have "ext = ''msg''" .
  with assms parts show ?thesis
    by (auto simp: file_fields_def split: sum.splits)
qed

lemma resolve_references_resolved:
  assumes "resolve c pop fuel names = Some (Inr s)"
  shows "references_resolved (specs s)"
proof -
  note inv = resolve_inv [OF assms]
  from inv have refs: "\<forall>n \<in> visited s. references c n \<subseteq> visited s \<and> readable c n"
    and dist: "distinct (map fst (specs s))"
    and tbl: "map_of (specs s) = (\<lambda>n. if n \<in> visited s then table_entry c n else None)"
    by (simp_all add: resolver_inv_def)
  have "name \<in> fst ` set (specs s)"
    if entry: "(user, sp) \<in> set (specs s)" and name: "name \<in> spec_refs sp"
      and doc: "is_documentation_msg name" for user sp name
  proof -
    from dist entry have "map_of (specs s) user = Some sp" by simp
    with tbl have user: "user \<in> visited s" and te: "table_entry c user = Some sp"
      by (auto split: if_splits)
    from te obtain sp0 where udoc: "is_documentation_msg user"
      and ff: "file_fields c user = Inr (Some sp0)" and sp: "sp = drop_empty sp0"
      by (auto simp: table_entry_def split: if_splits sum.splits option.splits)
    from name sp have name0: "name \<in> spec_refs sp0" by (simp add: spec_refs_drop_empty)
    with udoc ff have "name \<in> references c user" by (simp add: references_def)
    with refs user have nv: "name \<in> visited s" by auto
    with refs have "readable c name" by simp
    with doc obtain r where r: "file_fields c name = Inr r" by (auto simp: readable_def)
    from file_fields_refs [OF ff name0] obtain t where
      t: "name = strip_array_suffix (normalize_msg_name t)" by auto
    from file_fields_reference_kind [of c t r] r t obtain sp' where "r = Some sp'" by auto
    with r doc have "table_entry c name = Some (drop_empty sp')" by (simp add: table_entry_def)
    with tbl nv have "map_of (specs s) name = Some (drop_empty sp')" by simp
    then show ?thesis by (auto dest: map_of_SomeD intro: rev_image_eqI)
  qed
  then show ?thesis by (auto simp: references_resolved_def)
qed

text \<open>
  C1. For the table of every completed run of the resolver, the page generator's
  computation of the dependency graph raises nothing; both of its dicts have exactly the
  keys of the table, and a type \<open>b\<close> is in the set of types that \<open>a\<close> uses exactly when \<open>a\<close>
  is in the set of types that use \<open>b\<close>.
\<close>

theorem type_dependencies_transpose:
  assumes "resolve c pop fuel names = Some (Inr s)"
  shows "\<exists>type_uses type_used.
           type_dependencies (specs s) = Inr (type_uses, type_used) \<and>
           dom type_uses = fst ` set (specs s) \<and>
           dom type_used = fst ` set (specs s) \<and>
           (\<forall>a b. b \<in> members type_uses a \<longleftrightarrow> a \<in> members type_used b)"
proof -
  from dependencies_are_transposed [OF resolve_references_resolved [OF assms]]
  obtain g where g: "type_dependencies (specs s) = Inr g" "transposed (fst ` set (specs s)) g"
    by auto
  obtain type_uses type_used where "g = (type_uses, type_used)" by (cases g)
  with g show ?thesis by (auto simp: transposed_def)
qed

lemma example_dependencies:
  "map_sum id (\<lambda>(type_uses, type_used).
      (members type_uses ''autoware_adapi_v1_msgs/srv/S'',
       members type_used ''autoware_adapi_v1_msgs/msg/B''))
     (type_dependencies (specs result_A_first)) =
   Inr ({''autoware_adapi_v1_msgs/msg/A'', ''autoware_adapi_v1_msgs/msg/B''},
        {''autoware_adapi_v1_msgs/srv/S'', ''autoware_adapi_v1_msgs/msg/A''})"
  by (simp add: type_dependencies_def result_A_first_def record_use_def add_to_def
      strip_array_suffix_def is_documentation_msg_def targets_def str_split.simps(2) members_def
      insert_commute)

theorem type_dependencies_transpose_witness:
  "\<exists>type_uses type_used.
     type_dependencies (specs result_A_first) = Inr (type_uses, type_used) \<and>
     dom type_uses = fst ` set (specs result_A_first) \<and>
     dom type_used = fst ` set (specs result_A_first) \<and>
     (\<forall>a b. b \<in> members type_uses a \<longleftrightarrow> a \<in> members type_used b)"
  by (rule type_dependencies_transpose [OF example_run_A_first])

end
